theory Spec2Isabelle
  imports Main "HOL-Library.Sublist"
begin

section \<open>HKO\_HUB: atoms, molecules and the core sweeps\<close>

text \<open>
  The development embeds \<^verbatim>\<open>CHOPSHOP/legacy_repos/HKO_HUB/HKO_HUB.js\<close>.

  Conventions of the embedding.
  \<^item> A JavaScript call either returns or throws: a \<open>completion\<close>. Effects that
    happened before a throw stay, so every operation returns its completion together
    with the state it leaves behind.
  \<^item> A thrown value is an \<open>Error\<close> object, identified by its message, or \<open>null\<close>, or
    \<open>undefined\<close> (a promise rejected without a reason).
  \<^item> Callbacks handed to the library (event handlers, lifecycle hooks) are
    behaviours over an external world \<open>'u\<close>: they may change it and they may throw.
    An event handler may in addition edit the subscriber array of the bus that
    invokes it (it can hold the unsubscribe closures of that bus). Callbacks do not
    re-enter the method of the object that is invoking them. Validation rules and
    pipeline stages are functions of their argument alone.
  \<^item> A function object is a reference \<open>fid\<close>; its behaviour is looked up in an
    environment, so that \<open>indexOf\<close> compares references as \<open>===\<close> does.
  \<^item> An \<open>async\<close> function is run to completion by its single caller: resolving is
    \<open>Return\<close>, rejecting is \<open>Throw\<close>.
  \<^item> Fields named \<open>calls\<close>, \<open>emitted\<close>, \<open>invoked\<close> and \<open>trace\<close> are
    observation logs added by the embedding; no operation reads them.
\<close>

subsection \<open>Completions\<close>

datatype exn = Error string | Null | Undefined

datatype 'a completion = Return 'a | Throw exn

text \<open>
  \<open>e.message\<close>: the message of an \<open>Error\<close> object; reading a property of \<open>null\<close> or
  of \<open>undefined\<close> throws a \<open>TypeError\<close>.
\<close>

fun message :: "exn \<Rightarrow> string completion" where
  "message (Error m) = Return m"
| "message Null = Throw (Error ''Cannot read properties of null (reading 'message')'')"
| "message Undefined =
     Throw (Error ''Cannot read properties of undefined (reading 'message')'')"

subsection \<open>Layer 0: \<open>Atom_State\<close>\<close>

record 'a cell =
  v :: 'a
  initial :: 'a

definition Atom_State :: "'a \<Rightarrow> 'a cell" where
  "Atom_State i = \<lparr>v = i, initial = i\<rparr>"

definition State_read :: "'a cell \<Rightarrow> 'a" where
  "State_read c = v c"

definition State_write :: "'a \<Rightarrow> 'a cell \<Rightarrow> 'a \<times> 'a cell" where
  "State_write x c = (x, c\<lparr>v := x\<rparr>)"

definition State_reset :: "'a cell \<Rightarrow> 'a \<times> 'a cell" where
  "State_reset c = (initial c, c\<lparr>v := initial c\<rparr>)"

subsection \<open>Layer 0: \<open>Atom_Event\<close>\<close>

type_synonym fid = nat

text \<open>
  The array \<open>ls\<close> holds the function passed to \<open>on\<close> itself, or the fresh arrow
  function \<^verbatim>\<open>(d) => (f(d), off())\<close> that \<open>once\<close> builds around \<open>f\<close>.
\<close>

datatype handler = Fn fid | OnceWrapper fid

record 'p bus =
  ls :: "handler list"
  calls :: "(fid \<times> 'p) list"
  emitted :: "'p list"

type_synonym ('p, 'u) fenv =
  "fid \<Rightarrow> 'p \<Rightarrow> handler list \<Rightarrow> 'u \<Rightarrow> unit completion \<times> handler list \<times> 'u"

definition Atom_Event :: "'p bus" where
  "Atom_Event = \<lparr>ls = [], calls = [], emitted = []\<rparr>"

text \<open>\<open>Array.prototype.indexOf\<close>: the first index holding the element, or \<open>-1\<close>.\<close>

fun indexOf :: "'a list \<Rightarrow> 'a \<Rightarrow> int" where
  "indexOf [] x = -1"
| "indexOf (y # ys) x =
     (if y = x then 0 else (let i = indexOf ys x in if i < 0 then -1 else i + 1))"

text \<open>
  \<open>Array.prototype.splice(start, 1)\<close>: a negative \<open>start\<close> counts from the end, and
  the result is clamped to the array.
\<close>

definition splice1 :: "int \<Rightarrow> 'a list \<Rightarrow> 'a list" where
  "splice1 start xs =
     (let n = int (length xs);
          s = (if start < 0 then max (n + start) 0 else min start n)
      in take (nat s) xs @ drop (nat s + 1) xs)"

text \<open>\<open>Array.prototype.pop\<close> drops the last element; on an empty array it does nothing.\<close>

definition pop :: "'a list \<Rightarrow> 'a list" where
  "pop xs = butlast xs"

text \<open>\<open>on(f)\<close> pushes \<open>f\<close>; the closure it returns is \<open>Event_on_off f\<close>.\<close>

definition Event_on :: "fid \<Rightarrow> 'p bus \<Rightarrow> 'p bus" where
  "Event_on f b = b\<lparr>ls := ls b @ [Fn f]\<rparr>"

definition on_off :: "fid \<Rightarrow> handler list \<Rightarrow> handler list" where
  "on_off f l = splice1 (indexOf l (Fn f)) l"

definition Event_on_off :: "fid \<Rightarrow> 'p bus \<Rightarrow> 'p bus" where
  "Event_on_off f b = b\<lparr>ls := on_off f (ls b)\<rparr>"

text \<open>
  \<open>once(f)\<close> pushes the wrapper; \<open>push\<close> returns the new length, which is never
  \<open>0\<close>, so \<open>off\<close> is always \<^verbatim>\<open>() => ls.pop()\<close>.
\<close>

definition Event_once :: "fid \<Rightarrow> 'p bus \<Rightarrow> 'p bus" where
  "Event_once f b = b\<lparr>ls := ls b @ [OnceWrapper f]\<rparr>"

definition Event_once_off :: "'p bus \<Rightarrow> 'p bus" where
  "Event_once_off b = b\<lparr>ls := pop (ls b)\<rparr>"

definition Event_clear :: "'p bus \<Rightarrow> 'p bus" where
  "Event_clear b = b\<lparr>ls := []\<rparr>"

text \<open>Calling the user function \<open>f(d)\<close>.\<close>

definition call_fn ::
  "('p, 'u) fenv \<Rightarrow> fid \<Rightarrow> 'p \<Rightarrow> 'p bus \<times> 'u \<Rightarrow> unit completion \<times> 'p bus \<times> 'u" where
  "call_fn env f d bu =
     (case bu of (b, u) \<Rightarrow>
        (case env f d (ls b) u of
           (c, l', u') \<Rightarrow> (c, b\<lparr>ls := l', calls := calls b @ [(f, d)]\<rparr>, u')))"

text \<open>Calling an element of \<open>ls\<close>: the function itself, or the \<open>once\<close> wrapper.\<close>

fun invoke ::
  "('p, 'u) fenv \<Rightarrow> handler \<Rightarrow> 'p \<Rightarrow> 'p bus \<times> 'u \<Rightarrow> unit completion \<times> 'p bus \<times> 'u" where
  "invoke env (Fn f) d bu = call_fn env f d bu"
| "invoke env (OnceWrapper f) d bu =
     (case call_fn env f d bu of
        (Throw e, b', u') \<Rightarrow> (Throw e, b', u')
      | (Return _, b', u') \<Rightarrow> (Return (), Event_once_off b', u'))"

text \<open>
  \<open>ls.forEach(f => f(d))\<close>: the length is read once, before the first call; index
  \<open>k\<close> is visited only if the array still has it, and the element called is the one
  the array holds at index \<open>k\<close> at that moment.
\<close>

fun forEach ::
  "('p, 'u) fenv \<Rightarrow> 'p \<Rightarrow> nat list \<Rightarrow> 'p bus \<times> 'u \<Rightarrow> unit completion \<times> 'p bus \<times> 'u" where
  "forEach env d [] bu = (Return (), bu)"
| "forEach env d (k # ks) bu =
     (if k < length (ls (fst bu)) then
        (case invoke env (ls (fst bu) ! k) d bu of
           (Throw e, bu') \<Rightarrow> (Throw e, bu')
         | (Return _, bu') \<Rightarrow> forEach env d ks bu')
      else forEach env d ks bu)"

definition Event_emit ::
  "('p, 'u) fenv \<Rightarrow> 'p \<Rightarrow> 'p bus \<times> 'u \<Rightarrow> unit completion \<times> 'p bus \<times> 'u" where
  "Event_emit env d bu =
     (case bu of (b, u) \<Rightarrow>
        forEach env d [0..<length (ls b)] (b\<lparr>emitted := emitted b @ [d]\<rparr>, u))"

subsection \<open>Layer 0: \<open>Atom_Lifecycle\<close>\<close>

text \<open>A hook is a zero-argument callback \<open>f()\<close> acting on the external world.\<close>

type_synonym 'u hook = "'u \<Rightarrow> unit completion \<times> 'u"

type_synonym 'u lifecycle = "string \<rightharpoonup> 'u hook list"

definition Atom_Lifecycle :: "'u lifecycle" where
  "Atom_Lifecycle = [''init'' \<mapsto> [], ''start'' \<mapsto> [], ''stop'' \<mapsto> [], ''destroy'' \<mapsto> []]"

text \<open>
  \<open>h[phase].push(fn)\<close>: on a phase the table does not have, \<open>h[phase]\<close> is
  \<open>undefined\<close> and the property access throws a \<open>TypeError\<close>.
\<close>

definition Lifecycle_on ::
  "string \<Rightarrow> 'u hook \<Rightarrow> 'u lifecycle \<Rightarrow> nat completion \<times> 'u lifecycle" where
  "Lifecycle_on phase fn h =
     (case h phase of
        None \<Rightarrow> (Throw (Error ''Cannot read properties of undefined (reading 'push')''), h)
      | Some fs \<Rightarrow> (Return (length fs + 1), h(phase \<mapsto> fs @ [fn])))"

fun run_hooks :: "'u hook list \<Rightarrow> 'u \<Rightarrow> unit completion \<times> 'u" where
  "run_hooks [] u = (Return (), u)"
| "run_hooks (f # fs) u =
     (case f u of
        (Throw e, u') \<Rightarrow> (Throw e, u')
      | (Return _, u') \<Rightarrow> run_hooks fs u')"

text \<open>\<open>h[phase]?.forEach(f => f())\<close>.\<close>

definition Lifecycle_run :: "string \<Rightarrow> 'u lifecycle \<Rightarrow> 'u \<Rightarrow> unit completion \<times> 'u" where
  "Lifecycle_run phase h u =
     (case h phase of None \<Rightarrow> (Return (), u) | Some fs \<Rightarrow> run_hooks fs u)"

subsection \<open>Layer 0: \<open>Atom_Guard\<close>\<close>

text \<open>
  An object is its property lookup: \<open>data[k]\<close> is \<open>data k\<close>, and \<open>None\<close> is
  \<open>undefined\<close>. A rule set is given by its \<open>Object.entries\<close>, in the order
  \<open>Object.entries\<close> lists them; a rule is a predicate on the field's value.
\<close>

type_synonym 'v obj = "string \<Rightarrow> 'v option"

type_synonym 'v rules = "(string \<times> ('v option \<Rightarrow> bool)) list"

datatype 'v vresult = VOk "'v obj" | VFail string

fun Guard_validate :: "'v rules \<Rightarrow> 'v obj \<Rightarrow> 'v vresult" where
  "Guard_validate [] data = VOk data"
| "Guard_validate ((k, r) # rs) data =
     (if \<not> r (data k) then VFail k else Guard_validate rs data)"

subsection \<open>Layer 1: \<open>Mol_Store\<close>\<close>

record 'v store =
  state :: "'v obj cell"
  changed :: "'v obj bus"
  validator :: "('v obj \<Rightarrow> 'v vresult) option"

definition Mol_Store :: "'v obj \<Rightarrow> 'v rules \<Rightarrow> 'v store" where
  "Mol_Store init schema =
     \<lparr>state = Atom_State init, changed = Atom_Event,
      validator = (if length schema \<noteq> 0 then Some (Guard_validate schema) else None)\<rparr>"

definition Store_get :: "'v store \<Rightarrow> 'v obj" where
  "Store_get s = State_read (state s)"

definition Store_on :: "fid \<Rightarrow> 'v store \<Rightarrow> 'v store" where
  "Store_on f s = s\<lparr>changed := Event_on f (changed s)\<rparr>"

definition Store_reset :: "'v store \<Rightarrow> 'v obj \<times> 'v store" where
  "Store_reset s = (fst (State_reset (state s)), s\<lparr>state := snd (State_reset (state s))\<rparr>)"

definition Store_set ::
  "('v obj, 'u) fenv \<Rightarrow> 'v obj \<Rightarrow> 'v store \<times> 'u \<Rightarrow> 'v obj completion \<times> 'v store \<times> 'u" where
  "Store_set env x su =
     (case su of (s, u) \<Rightarrow>
        (case (case validator s of
                 None \<Rightarrow> None
               | Some vf \<Rightarrow> (case vf x of VOk _ \<Rightarrow> None | VFail k \<Rightarrow> Some k)) of
           Some k \<Rightarrow> (Throw (Error (''Invalid: '' @ k)), s, u)
         | None \<Rightarrow>
             (let s' = s\<lparr>state := snd (State_write x (state s))\<rparr> in
                case Event_emit env x (changed s', u) of
                  (Throw e, b', u') \<Rightarrow> (Throw e, s'\<lparr>changed := b'\<rparr>, u')
                | (Return _, b', u') \<Rightarrow> (Return x, s'\<lparr>changed := b'\<rparr>, u'))))"

subsection \<open>Layer 1: \<open>Mol_Module\<close>\<close>

record mstatus =
  status :: string
  err :: "exn option"

text \<open>The opaque \<open>cfg\<close> payload is carried by the object and never read; it is left out.\<close>

record 'u module =
  name :: string
  lc :: "'u lifecycle"
  mstate :: "mstatus cell"
  evt :: "string bus"

definition Mol_Module :: "string \<Rightarrow> 'u module" where
  "Mol_Module n =
     \<lparr>name = n, lc = Atom_Lifecycle,
      mstate = Atom_State \<lparr>status = ''idle'', err = None\<rparr>, evt = Atom_Event\<rparr>"

definition Module_init ::
  "(string, 'u) fenv \<Rightarrow> 'u module \<times> 'u \<Rightarrow> unit completion \<times> 'u module \<times> 'u" where
  "Module_init env mu =
     (case mu of (m, u) \<Rightarrow>
        (case Lifecycle_run ''init'' (lc m) u of
           (Throw e, u') \<Rightarrow> (Throw e, m, u')
         | (Return _, u') \<Rightarrow>
             (let m' = m\<lparr>mstate := snd (State_write \<lparr>status = ''init'', err = None\<rparr> (mstate m))\<rparr> in
                case Event_emit env ''init'' (evt m', u') of
                  (c, b', u'') \<Rightarrow> (c, m'\<lparr>evt := b'\<rparr>, u''))))"

definition Module_start ::
  "(string, 'u) fenv \<Rightarrow> 'u module \<times> 'u \<Rightarrow> unit completion \<times> 'u module \<times> 'u" where
  "Module_start env mu =
     (case mu of (m, u) \<Rightarrow>
        (case Lifecycle_run ''start'' (lc m) u of
           (Throw e, u') \<Rightarrow> (Throw e, m, u')
         | (Return _, u') \<Rightarrow>
             (let m' = m\<lparr>mstate := snd (State_write \<lparr>status = ''run'', err = None\<rparr> (mstate m))\<rparr> in
                case Event_emit env ''start'' (evt m', u') of
                  (c, b', u'') \<Rightarrow> (c, m'\<lparr>evt := b'\<rparr>, u''))))"

definition Module_stop ::
  "(string, 'u) fenv \<Rightarrow> 'u module \<times> 'u \<Rightarrow> unit completion \<times> 'u module \<times> 'u" where
  "Module_stop env mu =
     (case mu of (m, u) \<Rightarrow>
        (case Lifecycle_run ''stop'' (lc m) u of
           (Throw e, u') \<Rightarrow> (Throw e, m, u')
         | (Return _, u') \<Rightarrow>
             (let m' = m\<lparr>mstate := snd (State_write \<lparr>status = ''stop'', err = None\<rparr> (mstate m))\<rparr> in
                case Event_emit env ''stop'' (evt m', u') of
                  (c, b', u'') \<Rightarrow> (c, m'\<lparr>evt := b'\<rparr>, u''))))"

definition Module_status :: "'u module \<Rightarrow> mstatus" where
  "Module_status m = State_read (mstate m)"

definition Module_on :: "fid \<Rightarrow> 'u module \<Rightarrow> 'u module" where
  "Module_on f m = m\<lparr>evt := Event_on f (evt m)\<rparr>"

definition Module_onInit :: "'u hook \<Rightarrow> 'u module \<Rightarrow> nat completion \<times> 'u module" where
  "Module_onInit f m =
     (case Lifecycle_on ''init'' f (lc m) of (c, h) \<Rightarrow> (c, m\<lparr>lc := h\<rparr>))"

definition Module_onStart :: "'u hook \<Rightarrow> 'u module \<Rightarrow> nat completion \<times> 'u module" where
  "Module_onStart f m =
     (case Lifecycle_on ''start'' f (lc m) of (c, h) \<Rightarrow> (c, m\<lparr>lc := h\<rparr>))"

definition Module_onStop :: "'u hook \<Rightarrow> 'u module \<Rightarrow> nat completion \<times> 'u module" where
  "Module_onStop f m =
     (case Lifecycle_on ''stop'' f (lc m) of (c, h) \<Rightarrow> (c, m\<lparr>lc := h\<rparr>))"

subsection \<open>Layer 1: \<open>Mol_Pipeline\<close>\<close>

text \<open>
  A progress event \<^verbatim>\<open>{stage, status, err}\<close>; \<open>perr = None\<close> is an event without
  the \<open>err\<close> property. A stage maps its input to what awaiting it gives: the value
  it resolves to, or the cause it throws or rejects with. The rest parameter
  \<open>stages\<close> is fixed at construction; what changes is the bus.
\<close>

record pevent =
  stage :: nat
  pstatus :: string
  perr :: "string option"

type_synonym 'a stage = "'a \<Rightarrow> 'a completion"

record pstate =
  pevt :: "pevent bus"
  invoked :: "nat list"

definition Mol_Pipeline :: pstate where
  "Mol_Pipeline = \<lparr>pevt = Atom_Event, invoked = []\<rparr>"

definition Pipeline_on :: "fid \<Rightarrow> pstate \<Rightarrow> pstate" where
  "Pipeline_on f p = p\<lparr>pevt := Event_on f (pevt p)\<rparr>"

text \<open>The body of the \<open>try\<close> block for stage \<open>i\<close>.\<close>

definition try_stage ::
  "(pevent, 'u) fenv \<Rightarrow> 'a stage list \<Rightarrow> nat \<Rightarrow> 'a \<Rightarrow> pstate \<times> 'u
     \<Rightarrow> 'a completion \<times> pstate \<times> 'u" where
  "try_stage env stages i cur pu =
     (case pu of (p, u) \<Rightarrow>
        (case Event_emit env \<lparr>stage = i, pstatus = ''run'', perr = None\<rparr> (pevt p, u) of
           (Throw e, b1, u1) \<Rightarrow> (Throw e, p\<lparr>pevt := b1\<rparr>, u1)
         | (Return _, b1, u1) \<Rightarrow>
             (case (stages ! i) cur of
                Throw e \<Rightarrow> (Throw e, p\<lparr>pevt := b1, invoked := invoked p @ [i]\<rparr>, u1)
              | Return c \<Rightarrow>
                  (case Event_emit env \<lparr>stage = i, pstatus = ''ok'', perr = None\<rparr> (b1, u1) of
                     (Throw e, b2, u2) \<Rightarrow>
                       (Throw e, p\<lparr>pevt := b2, invoked := invoked p @ [i]\<rparr>, u2)
                   | (Return _, b2, u2) \<Rightarrow>
                       (Return c, p\<lparr>pevt := b2, invoked := invoked p @ [i]\<rparr>, u2)))))"

text \<open>
  The \<open>for\<close> loop, with the \<open>catch\<close> block: build the failure event, which reads
  \<open>e.message\<close> and may throw itself, emit it, throw \<open>e\<close> again.
\<close>

function run_loop ::
  "(pevent, 'u) fenv \<Rightarrow> 'a stage list \<Rightarrow> nat \<Rightarrow> 'a \<Rightarrow> pstate \<times> 'u
     \<Rightarrow> 'a completion \<times> pstate \<times> 'u" where
  "run_loop env stages i cur pu =
     (if i < length stages then
        (case try_stage env stages i cur pu of
           (Return c, pu1) \<Rightarrow> run_loop env stages (i + 1) c pu1
         | (Throw e, p1, u1) \<Rightarrow>
             (case message e of
                Throw t \<Rightarrow> (Throw t, p1, u1)
              | Return m \<Rightarrow>
                  (case Event_emit env \<lparr>stage = i, pstatus = ''fail'', perr = Some m\<rparr>
                          (pevt p1, u1) of
                     (Throw e2, b2, u2) \<Rightarrow> (Throw e2, p1\<lparr>pevt := b2\<rparr>, u2)
                   | (Return _, b2, u2) \<Rightarrow> (Throw e, p1\<lparr>pevt := b2\<rparr>, u2))))
      else (Return cur, pu))"
  by pat_completeness auto
termination
  by (relation "measure (\<lambda>(env, stages, i, cur, pu). length stages - i)") auto

declare run_loop.simps [simp del]

definition Pipeline_run ::
  "(pevent, 'u) fenv \<Rightarrow> 'a stage list \<Rightarrow> 'a \<Rightarrow> pstate \<times> 'u \<Rightarrow> 'a completion \<times> pstate \<times> 'u" where
  "Pipeline_run env stages input pu = run_loop env stages 0 input pu"

subsection \<open>Layer 3: the sweeps of \<open>HKO_HUB_Core\<close>\<close>

text \<open>
  The registry is the insertion-ordered \<open>Map\<close> of names to modules; the sweeps are
  written for any registry. The logger is the part of \<open>Module_Logger\<close> the sweeps
  use: the entry list, the \<open>onLog\<close> bus and the console. The clock read by
  \<^verbatim>\<open>new Date().toISOString()\<close> is a function of the external world.
\<close>

record entry =
  time :: string
  level :: string
  msg :: string

record 'u core =
  modules :: "(string \<times> 'u module) list"
  logs :: "entry list"
  levt :: "entry bus"
  console :: "string list"
  trace :: "(string \<times> string) list"

definition Logger_log ::
  "(entry, 'u) fenv \<Rightarrow> ('u \<Rightarrow> string) \<Rightarrow> string \<Rightarrow> string \<Rightarrow> 'u core \<times> 'u
     \<Rightarrow> unit completion \<times> 'u core \<times> 'u" where
  "Logger_log lenv clock lvl m cu =
     (case cu of (c, u) \<Rightarrow>
        (let e = \<lparr>time = clock u, level = lvl, msg = m\<rparr>;
             pushed = logs c @ [e];
             kept = (if length pushed > 1000 then tl pushed else pushed)
         in case Event_emit lenv e (levt c, u) of
              (Throw x, b', u') \<Rightarrow> (Throw x, c\<lparr>logs := kept, levt := b'\<rparr>, u')
            | (Return _, b', u') \<Rightarrow>
                (Return (),
                 c\<lparr>logs := kept, levt := b',
                   console := console c @ [''['' @ time e @ ''] ['' @ lvl @ ''] '' @ m]\<rparr>, u')))"

definition Logger_info ::
  "(entry, 'u) fenv \<Rightarrow> ('u \<Rightarrow> string) \<Rightarrow> string \<Rightarrow> 'u core \<times> 'u
     \<Rightarrow> unit completion \<times> 'u core \<times> 'u" where
  "Logger_info lenv clock m cu = Logger_log lenv clock ''INFO'' m cu"

text \<open>
  \<^verbatim>\<open>for (const [n, m] of modules) { await m.init(); logger.info(...) }\<close>, over the
  positions of the registry; the module object at a position is updated in place.
\<close>

fun init_sweep ::
  "(string, 'u) fenv \<Rightarrow> (entry, 'u) fenv \<Rightarrow> ('u \<Rightarrow> string) \<Rightarrow> nat list \<Rightarrow> 'u core \<times> 'u
     \<Rightarrow> unit completion \<times> 'u core \<times> 'u" where
  "init_sweep menv lenv clock [] cu = (Return (), cu)"
| "init_sweep menv lenv clock (k # ks) cu =
     (case cu of (c, u) \<Rightarrow>
        (case modules c ! k of (n, m) \<Rightarrow>
           (case Module_init menv (m, u) of
              (Throw e, m', u') \<Rightarrow>
                (Throw e,
                 c\<lparr>modules := (modules c)[k := (n, m')], trace := trace c @ [(n, ''init'')]\<rparr>, u')
            | (Return _, m', u') \<Rightarrow>
                (case Logger_info lenv clock (''[HKO_HUB] Init: '' @ n)
                        (c\<lparr>modules := (modules c)[k := (n, m')],
                           trace := trace c @ [(n, ''init'')]\<rparr>, u') of
                   (Throw e, cu') \<Rightarrow> (Throw e, cu')
                 | (Return _, cu') \<Rightarrow> init_sweep menv lenv clock ks cu'))))"

definition Core_init ::
  "(string, 'u) fenv \<Rightarrow> (entry, 'u) fenv \<Rightarrow> ('u \<Rightarrow> string) \<Rightarrow> 'u core \<times> 'u
     \<Rightarrow> unit completion \<times> 'u core \<times> 'u" where
  "Core_init menv lenv clock cu =
     init_sweep menv lenv clock [0..<length (modules (fst cu))] cu"

text \<open>
  \<^verbatim>\<open>for (const [n, m] of [...modules].reverse()) { await m.stop(); logger.info(...) }\<close>.
\<close>

fun stop_sweep ::
  "(string, 'u) fenv \<Rightarrow> (entry, 'u) fenv \<Rightarrow> ('u \<Rightarrow> string) \<Rightarrow> nat list \<Rightarrow> 'u core \<times> 'u
     \<Rightarrow> unit completion \<times> 'u core \<times> 'u" where
  "stop_sweep menv lenv clock [] cu = (Return (), cu)"
| "stop_sweep menv lenv clock (k # ks) cu =
     (case cu of (c, u) \<Rightarrow>
        (case modules c ! k of (n, m) \<Rightarrow>
           (case Module_stop menv (m, u) of
              (Throw e, m', u') \<Rightarrow>
                (Throw e,
                 c\<lparr>modules := (modules c)[k := (n, m')], trace := trace c @ [(n, ''stop'')]\<rparr>, u')
            | (Return _, m', u') \<Rightarrow>
                (case Logger_info lenv clock (''[HKO_HUB] Stop: '' @ n)
                        (c\<lparr>modules := (modules c)[k := (n, m')],
                           trace := trace c @ [(n, ''stop'')]\<rparr>, u') of
                   (Throw e, cu') \<Rightarrow> (Throw e, cu')
                 | (Return _, cu') \<Rightarrow> stop_sweep menv lenv clock ks cu'))))"

definition Core_stop ::
  "(string, 'u) fenv \<Rightarrow> (entry, 'u) fenv \<Rightarrow> ('u \<Rightarrow> string) \<Rightarrow> 'u core \<times> 'u
     \<Rightarrow> unit completion \<times> 'u core \<times> 'u" where
  "Core_stop menv lenv clock cu =
     stop_sweep menv lenv clock (rev [0..<length (modules (fst cu))]) cu"

subsection \<open>Vocabulary of the statements\<close>

text \<open>The user function behind an element of \<open>ls\<close>.\<close>

fun fid_of :: "handler \<Rightarrow> fid" where
  "fid_of (Fn f) = f"
| "fid_of (OnceWrapper f) = f"

text \<open>
  Handlers are inert when each is a function subscribed with \<open>on\<close> that returns
  normally and leaves the subscriber array as it found it, whatever the payload,
  the array and the world.
\<close>

definition inert :: "('p, 'u) fenv \<Rightarrow> handler list \<Rightarrow> bool" where
  "inert env hs \<longleftrightarrow>
     (\<forall>h \<in> set hs. case h of
        Fn f \<Rightarrow> (\<forall>d l u. fst (env f d l u) = Return () \<and> fst (snd (env f d l u)) = l)
      | OnceWrapper f \<Rightarrow> False)"

text \<open>No function throws when it is called as a handler, whatever it is given.\<close>

definition never_throws :: "('p, 'u) fenv \<Rightarrow> bool" where
  "never_throws env \<longleftrightarrow> (\<forall>f d l u. fst (env f d l u) = Return ())"

subsection \<open>Concrete handlers and buses\<close>

text \<open>Every function returns at once.\<close>

definition quiet_env :: "('p, 'u) fenv" where
  "quiet_env f d l u = (Return (), l, u)"

text \<open>Function \<open>g\<close> calls the unsubscribe closure that \<open>on(g)\<close> returned; the others return.\<close>

definition unsub_self_env :: "fid \<Rightarrow> ('p, 'u) fenv" where
  "unsub_self_env g f d l u =
     (if f = g then (Return (), on_off f l, u) else (Return (), l, u))"

text \<open>Every function throws.\<close>

definition throwing_env :: "('p, 'u) fenv" where
  "throwing_env f d l u = (Throw (Error ''observer failed''), l, u)"

text \<open>\<^verbatim>\<open>bus.on(f1); bus.on(f2); bus.on(f3)\<close>\<close>

definition bus3 :: "string bus" where
  "bus3 = Event_on 3 (Event_on 2 (Event_on 1 Atom_Event))"

text \<open>\<^verbatim>\<open>bus.once(f1); bus.on(f2)\<close>\<close>

definition once_then_on :: "string bus" where
  "once_then_on = Event_on 2 (Event_once 1 Atom_Event)"

subsection \<open>Vocabulary for modules\<close>

text \<open>No hook of the module throws, in any world.\<close>

definition hooks_return :: "'u module \<Rightarrow> bool" where
  "hooks_return m \<longleftrightarrow>
     (\<forall>ph fs. lc m ph = Some fs \<longrightarrow> (\<forall>f \<in> set fs. \<forall>u. fst (f u) = Return ()))"

text \<open>
  The three phase methods differ in the phase name \<open>ph\<close> and in the status \<open>st\<close>
  they write; \<open>phase_method\<close> is their common shape, used to prove facts about the
  three at once.
\<close>

definition phase_method ::
  "(string, 'u) fenv \<Rightarrow> string \<Rightarrow> string \<Rightarrow> 'u module \<times> 'u
     \<Rightarrow> unit completion \<times> 'u module \<times> 'u" where
  "phase_method env ph st mu =
     (case mu of (m, u) \<Rightarrow>
        (case Lifecycle_run ph (lc m) u of
           (Throw e, u') \<Rightarrow> (Throw e, m, u')
         | (Return _, u') \<Rightarrow>
             (let m' = m\<lparr>mstate := snd (State_write \<lparr>status = st, err = None\<rparr> (mstate m))\<rparr> in
                case Event_emit env ph (evt m', u') of
                  (c, b', u'') \<Rightarrow> (c, m'\<lparr>evt := b'\<rparr>, u''))))"

text \<open>A caller that awaits phase methods one after the other, in any order it likes.\<close>

datatype phase = Init | Start | Stop

fun phase_status :: "phase \<Rightarrow> string" where
  "phase_status Init = ''init''"
| "phase_status Start = ''run''"
| "phase_status Stop = ''stop''"

fun phase_name :: "phase \<Rightarrow> string" where
  "phase_name Init = ''init''"
| "phase_name Start = ''start''"
| "phase_name Stop = ''stop''"

fun call_phase ::
  "(string, 'u) fenv \<Rightarrow> phase \<Rightarrow> 'u module \<times> 'u \<Rightarrow> unit completion \<times> 'u module \<times> 'u" where
  "call_phase env Init mu = Module_init env mu"
| "call_phase env Start mu = Module_start env mu"
| "call_phase env Stop mu = Module_stop env mu"

fun call_phases ::
  "(string, 'u) fenv \<Rightarrow> phase list \<Rightarrow> 'u module \<times> 'u \<Rightarrow> unit completion \<times> 'u module \<times> 'u" where
  "call_phases env [] mu = (Return (), mu)"
| "call_phases env (p # ps) mu =
     (case call_phase env p mu of
        (Throw e, mu') \<Rightarrow> (Throw e, mu')
      | (Return _, mu') \<Rightarrow> call_phases env ps mu')"

subsection \<open>Concrete modules\<close>

text \<open>Hooks over a world that counts the hooks that ran.\<close>

definition counting_hook :: "nat hook" where
  "counting_hook u = (Return (), u + 1)"

definition failing_hook :: "string \<Rightarrow> nat hook" where
  "failing_hook m u = (Throw (Error m), u)"

text \<open>\<^verbatim>\<open>m = Mol_Module('m'); m.onInit(h); m.onStart(h); m.onStop(h); m.on(f1)\<close>\<close>

definition plain_module :: "nat module" where
  "plain_module =
     Module_on 1 (snd (Module_onStop counting_hook (snd (Module_onStart counting_hook
       (snd (Module_onInit counting_hook (Mol_Module ''m'')))))))"

text \<open>
  \<^verbatim>\<open>m = Mol_Module('m'); m.onInit(h); m.onInit(bad1); m.onStart(bad2); m.onStop(h); m.onStop(bad3); m.on(f1)\<close>
\<close>

definition broken_module :: "nat module" where
  "broken_module =
     Module_on 1 (snd (Module_onStop (failing_hook ''stop failed'')
       (snd (Module_onStop counting_hook
       (snd (Module_onStart (failing_hook ''start failed'')
       (snd (Module_onInit (failing_hook ''init failed'')
       (snd (Module_onInit counting_hook (Mol_Module ''m'')))))))))))"

text \<open>\<^verbatim>\<open>m = Mol_Module('m'); m.on(f1)\<close>, no hooks.\<close>

definition watched_module :: "nat module" where
  "watched_module = Module_on 1 (Mol_Module ''m'')"

subsection \<open>Vocabulary for stores\<close>

text \<open>The payload passes every rule of the schema.\<close>

definition satisfies :: "'v rules \<Rightarrow> 'v obj \<Rightarrow> bool" where
  "satisfies schema x \<longleftrightarrow> (\<forall>(k, r) \<in> set schema. r (x k))"

text \<open>The field of the first rule, in the order of the schema, that the payload fails.\<close>

definition first_violation :: "'v rules \<Rightarrow> 'v obj \<Rightarrow> string option" where
  "first_violation schema x = map_option fst (find (\<lambda>(k, r). \<not> r (x k)) schema)"

subsection \<open>A concrete store\<close>

text \<open>\<^verbatim>\<open>{ name: (v) => v !== undefined, age: (v) => v !== undefined }\<close>\<close>

definition person_schema :: "nat rules" where
  "person_schema = [(''name'', \<lambda>x. x \<noteq> None), (''age'', \<lambda>x. x \<noteq> None)]"

definition person0 :: "nat obj" where
  "person0 = [''name'' \<mapsto> 0, ''age'' \<mapsto> 0]"

definition person1 :: "nat obj" where
  "person1 = [''name'' \<mapsto> 1, ''age'' \<mapsto> 30]"

text \<open>An object with neither field: it fails both rules, \<open>name\<close> first.\<close>

definition nobody :: "nat obj" where
  "nobody = Map.empty"

text \<open>\<^verbatim>\<open>s = Mol_Store(person0, schema); s.on(f1); s.on(f2)\<close>\<close>

definition person_store :: "nat store" where
  "person_store = Store_on 2 (Store_on 1 (Mol_Store person0 person_schema))"

subsection \<open>Vocabulary for pipelines\<close>

text \<open>
  What a run from stage index \<open>i\<close> is expected to give when the observers of the bus
  stay out of the way: the result of feeding each output forward until a stage
  fails, the progress events in order, and the indices of the stages called.
\<close>

fun pipe_result :: "'a stage list \<Rightarrow> 'a \<Rightarrow> 'a completion" where
  "pipe_result [] x = Return x"
| "pipe_result (s # ss) x =
     (case s x of
        Return y \<Rightarrow> pipe_result ss y
      | Throw e \<Rightarrow> (case message e of Return m \<Rightarrow> Throw e | Throw t \<Rightarrow> Throw t))"

fun pipe_events :: "'a stage list \<Rightarrow> nat \<Rightarrow> 'a \<Rightarrow> pevent list" where
  "pipe_events [] i x = []"
| "pipe_events (s # ss) i x =
     \<lparr>stage = i, pstatus = ''run'', perr = None\<rparr> #
     (case s x of
        Return y \<Rightarrow> \<lparr>stage = i, pstatus = ''ok'', perr = None\<rparr> # pipe_events ss (i + 1) y
      | Throw e \<Rightarrow>
          (case message e of
             Return m \<Rightarrow> [\<lparr>stage = i, pstatus = ''fail'', perr = Some m\<rparr>]
           | Throw t \<Rightarrow> []))"

fun pipe_invoked :: "'a stage list \<Rightarrow> nat \<Rightarrow> 'a \<Rightarrow> nat list" where
  "pipe_invoked [] i x = []"
| "pipe_invoked (s # ss) i x =
     i # (case s x of Return y \<Rightarrow> pipe_invoked ss (i + 1) y | Throw e \<Rightarrow> [])"

text \<open>
  What the subscribers \<open>hs\<close> are called with when each of them receives each of the
  events \<open>evs\<close>: event by event, and for one event in subscription order.
\<close>

definition deliveries :: "handler list \<Rightarrow> 'p list \<Rightarrow> (fid \<times> 'p) list" where
  "deliveries hs evs = concat (map (\<lambda>ev. map (\<lambda>h. (fid_of h, ev)) hs) evs)"

subsection \<open>Concrete pipelines\<close>

text \<open>The stages of the repository's own pipeline test, \<open>x + 1\<close>, \<open>x * 2\<close>, \<open>x - 3\<close>.\<close>

definition inc :: "int stage" where
  "inc x = Return (x + 1)"

definition dbl :: "int stage" where
  "dbl x = Return (x * 2)"

definition sub3 :: "int stage" where
  "sub3 x = Return (x - 3)"

definition failing_stage :: "string \<Rightarrow> int stage" where
  "failing_stage m x = Throw (Error m)"

text \<open>\<^verbatim>\<open>() => Promise.reject()\<close>\<close>

definition rejecting_stage :: "int stage" where
  "rejecting_stage x = Throw Undefined"

text \<open>\<^verbatim>\<open>p = Mol_Pipeline(...); p.on(f1)\<close>\<close>

definition watched_pipeline :: pstate where
  "watched_pipeline = Pipeline_on 1 Mol_Pipeline"

subsection \<open>Vocabulary for the core\<close>

text \<open>
  The two sweeps differ in the method awaited, in the name \<open>tag\<close> under which the
  call is logged in \<open>trace\<close>, and in the label of the log line; \<open>sweep\<close> is their
  common shape, used to prove facts about both at once.
\<close>

fun sweep ::
  "('u module \<times> 'u \<Rightarrow> unit completion \<times> 'u module \<times> 'u) \<Rightarrow> string \<Rightarrow> string
     \<Rightarrow> (entry, 'u) fenv \<Rightarrow> ('u \<Rightarrow> string) \<Rightarrow> nat list \<Rightarrow> 'u core \<times> 'u
     \<Rightarrow> unit completion \<times> 'u core \<times> 'u" where
  "sweep meth tag label lenv clock [] cu = (Return (), cu)"
| "sweep meth tag label lenv clock (k # ks) cu =
     (case cu of (c, u) \<Rightarrow>
        (case modules c ! k of (n, m) \<Rightarrow>
           (case meth (m, u) of
              (Throw e, m', u') \<Rightarrow>
                (Throw e,
                 c\<lparr>modules := (modules c)[k := (n, m')], trace := trace c @ [(n, tag)]\<rparr>, u')
            | (Return _, m', u') \<Rightarrow>
                (case Logger_info lenv clock (label @ n)
                        (c\<lparr>modules := (modules c)[k := (n, m')],
                           trace := trace c @ [(n, tag)]\<rparr>, u') of
                   (Throw e, cu') \<Rightarrow> (Throw e, cu')
                 | (Return _, cu') \<Rightarrow> sweep meth tag label lenv clock ks cu'))))"

text \<open>The thrown value is an \<open>Error\<close> object and the text \<open>n\<close> occurs in its message.\<close>

fun occurs_in :: "string \<Rightarrow> string \<Rightarrow> bool" where
  "occurs_in n [] = (n = [])"
| "occurs_in n (c # cs) = (prefix n (c # cs) \<or> occurs_in n cs)"

definition mentions :: "exn \<Rightarrow> string \<Rightarrow> bool" where
  "mentions e n = (case e of Error m \<Rightarrow> occurs_in n m | Null \<Rightarrow> False | Undefined \<Rightarrow> False)"

subsection \<open>A concrete core\<close>

text \<open>A core over a given registry, before any sweep.\<close>

definition Core_of :: "(string \<times> 'u module) list \<Rightarrow> 'u core" where
  "Core_of ms = \<lparr>modules = ms, logs = [], levt = Atom_Event, console = [], trace = []\<rparr>"

text \<open>\<^verbatim>\<open>m = Mol_Module(n); m.onInit(h); m.onStop(h)\<close>\<close>

definition sound_module :: "string \<Rightarrow> nat module" where
  "sound_module n =
     snd (Module_onStop counting_hook (snd (Module_onInit counting_hook (Mol_Module n))))"

text \<open>\<^verbatim>\<open>m = Mol_Module(n); m.onInit(bad1); m.onStop(bad2)\<close>\<close>

definition faulty_module :: "string \<Rightarrow> nat module" where
  "faulty_module n =
     snd (Module_onStop (failing_hook ''stop failed'')
       (snd (Module_onInit (failing_hook ''init failed'') (Mol_Module n))))"

definition core_ABC :: "nat core" where
  "core_ABC =
     Core_of [(''A'', sound_module ''A''), (''B'', faulty_module ''B''), (''C'', sound_module ''C'')]"

definition core_sound :: "nat core" where
  "core_sound =
     Core_of [(''A'', sound_module ''A''), (''B'', sound_module ''B''), (''C'', sound_module ''C'')]"

definition fixed_clock :: "nat \<Rightarrow> string" where
  "fixed_clock u = ''2026-01-01T00:00:00.000Z''"

section \<open>Properties\<close>

subsection \<open>Event bus\<close>

lemmas bus_eval = Event_emit_def Event_on_def Event_once_def Atom_Event_def call_fn_def
  on_off_def splice1_def pop_def Event_once_off_def upt_rec

lemma forEach_emitted:
  "emitted (fst (snd (forEach env d ks bu))) = emitted (fst bu)"
proof (induction ks arbitrary: bu)
  case Nil
  then show ?case by simp
next
  case (Cons k ks)
  have inv: "emitted (fst (snd (invoke env h d bu))) = emitted (fst bu)" for h
    by (cases h; cases bu) (auto simp: call_fn_def Event_once_off_def split: prod.splits completion.splits)
  show ?case
  proof (cases "k < length (ls (fst bu))")
    case False
    then show ?thesis using Cons.IH by simp
  next
    case True
    obtain c bu' where r: "invoke env (ls (fst bu) ! k) d bu = (c, bu')"
      by (cases "invoke env (ls (fst bu) ! k) d bu") auto
    have e: "emitted (fst bu') = emitted (fst bu)"
      using inv[of "ls (fst bu) ! k"] r by simp
    show ?thesis
      using True r e Cons.IH[of bu'] by (cases c) simp_all
  qed
qed

lemma Event_emit_emitted:
  "emitted (fst (snd (Event_emit env d (b, u)))) = emitted b @ [d]"
  by (simp add: Event_emit_def forEach_emitted)

text \<open>
  A pass calls at most as many handlers as the array held when the pass began:
  whatever the handlers do to the array, the walk stops at the length read first.
\<close>

lemma invoke_calls:
  "calls (fst (snd (invoke env h d bu))) = calls (fst bu) @ [(fid_of h, d)]"
  by (cases h; cases bu)
    (auto simp: call_fn_def Event_once_off_def split: prod.splits completion.splits)

lemma forEach_calls_length:
  "length (calls (fst (snd (forEach env d ks bu)))) \<le> length (calls (fst bu)) + length ks"
proof (induction ks arbitrary: bu)
  case Nil
  then show ?case by simp
next
  case (Cons k ks)
  show ?case
  proof (cases "k < length (ls (fst bu))")
    case False
    then show ?thesis using Cons.IH[of bu] by simp
  next
    case True
    obtain c bu' where r: "invoke env (ls (fst bu) ! k) d bu = (c, bu')"
      by (cases "invoke env (ls (fst bu) ! k) d bu") auto
    have e: "length (calls (fst bu')) = length (calls (fst bu)) + 1"
      using invoke_calls[of env "ls (fst bu) ! k" d bu] r by simp
    show ?thesis
      using True r e Cons.IH[of bu'] by (cases c) simp_all
  qed
qed

lemma emit_calls_at_most_initial_length:
  "length (calls (fst (snd (Event_emit env d (b, u))))) \<le> length (calls b) + length (ls b)"
  using forEach_calls_length[of env d "[0..<length (ls b)]" "(b\<lparr>emitted := emitted b @ [d]\<rparr>, u)"]
  by (simp add: Event_emit_def)

lemma forEach_inert:
  "inert env (ls b) \<Longrightarrow> \<forall>k \<in> set ks. k < length (ls b) \<Longrightarrow>
   fst (forEach env d ks (b, u)) = Return () \<and>
   ls (fst (snd (forEach env d ks (b, u)))) = ls b \<and>
   calls (fst (snd (forEach env d ks (b, u)))) = calls b @ map (\<lambda>k. (fid_of (ls b ! k), d)) ks"
proof (induction ks arbitrary: b u)
  case Nil
  then show ?case by simp
next
  case (Cons k ks)
  then have k: "k < length (ls b)" by simp
  then have mem: "ls b ! k \<in> set (ls b)" by simp
  with Cons.prems(1) obtain f where f: "ls b ! k = Fn f"
    and pf: "\<And>d l u. fst (env f d l u) = Return () \<and> fst (snd (env f d l u)) = l"
    unfolding inert_def by (cases "ls b ! k") (auto split: handler.splits)
  obtain c l' u' where e: "env f d (ls b) u = (c, l', u')" by (cases "env f d (ls b) u") auto
  with pf[of d "ls b" u] have c: "c = Return ()" and l': "l' = ls b" by simp_all
  let ?b = "b\<lparr>ls := ls b, calls := calls b @ [(f, d)]\<rparr>"
  have inv: "invoke env (ls b ! k) d (b, u) = (Return (), ?b, u')"
    by (simp add: f call_fn_def e c l')
  have p: "inert env (ls ?b)" using Cons.prems(1) by simp
  have ks: "\<forall>k \<in> set ks. k < length (ls ?b)" using Cons.prems(2) by simp
  from Cons.IH[OF p ks, of u'] show ?case
    using k inv f by simp
qed

lemma Event_emit_inert:
  assumes "inert env (ls b)"
  shows "fst (Event_emit env d (b, u)) = Return () \<and>
         ls (fst (snd (Event_emit env d (b, u)))) = ls b \<and>
         calls (fst (snd (Event_emit env d (b, u)))) = calls b @ map (\<lambda>h. (fid_of h, d)) (ls b) \<and>
         emitted (fst (snd (Event_emit env d (b, u)))) = emitted b @ [d]"
proof -
  let ?b = "b\<lparr>emitted := emitted b @ [d]\<rparr>"
  have p: "inert env (ls ?b)" using assms by simp
  have ks: "\<forall>k \<in> set [0..<length (ls b)]. k < length (ls ?b)" by simp
  have m: "map (\<lambda>k. (fid_of (ls b ! k), d)) [0..<length (ls b)] = map (\<lambda>h. (fid_of h, d)) (ls b)"
    by (rule nth_equalityI) simp_all
  have e: "Event_emit env d (b, u) = forEach env d [0..<length (ls b)] (?b, u)"
    by (simp add: Event_emit_def)
  have f: "fst (forEach env d [0..<length (ls b)] (?b, u)) = Return () \<and>
     ls (fst (snd (forEach env d [0..<length (ls b)] (?b, u)))) = ls b \<and>
     calls (fst (snd (forEach env d [0..<length (ls b)] (?b, u)))) =
       calls b @ map (\<lambda>k. (fid_of (ls b ! k), d)) [0..<length (ls b)]"
    using forEach_inert[OF p ks, of d u] by simp
  show ?thesis
    unfolding e using f Event_emit_emitted[of env d b u] unfolding e m by blast
qed

lemma forEach_never_throws:
  "never_throws env \<Longrightarrow> fst (forEach env d ks bu) = Return ()"
proof (induction ks arbitrary: bu)
  case Nil
  then show ?case by simp
next
  case (Cons k ks)
  have inv: "fst (invoke env h d bu) = Return ()" for h
    using Cons.prems
    by (cases h; cases bu)
      (auto simp: never_throws_def call_fn_def split: prod.splits completion.splits,
        (metis fst_conv completion.distinct(1))+)
  show ?case
  proof (cases "k < length (ls (fst bu))")
    case False
    then show ?thesis using Cons by simp
  next
    case True
    obtain c bu' where r: "invoke env (ls (fst bu) ! k) d bu = (c, bu')"
      by (cases "invoke env (ls (fst bu) ! k) d bu") auto
    have "c = Return ()" using inv[of "ls (fst bu) ! k"] r by simp
    then show ?thesis using True r Cons.IH[OF Cons.prems, of bu'] by simp
  qed
qed

lemma Event_emit_never_throws:
  "never_throws env \<Longrightarrow> fst (Event_emit env d bu) = Return ()"
  by (cases bu) (simp add: Event_emit_def forEach_never_throws)

lemma never_throws_quiet_env: "never_throws quiet_env"
  by (simp add: never_throws_def quiet_env_def)

text \<open>
  Claim C1 says that \<open>emit\<close> calls exactly the handlers subscribed when the emission
  began, in subscription order, also when a handler unsubscribes during the pass.
  The code walks the live array by index. With three subscribers of which the second
  unsubscribes itself, the third moves down to index 1, index 2 is gone when the
  walk reaches it, and the third handler is not called.
\<close>

theorem emit_snapshot_counterexample:
  "ls bus3 = [Fn 1, Fn 2, Fn 3] \<and>
   calls (fst (snd (Event_emit (unsub_self_env 2) ''p'' (bus3, ())))) = [(1, ''p''), (2, ''p'')]"
  by (simp add: bus3_def unsub_self_env_def bus_eval)

text \<open>
  Claim C1, amended: when no handler of the pass throws or changes the subscriber
  array, \<open>emit(p)\<close> returns having called exactly the handlers subscribed when the
  emission began, once each with \<open>p\<close>, in subscription order, and the array is as
  before.
\<close>

theorem emit_in_subscription_order:
  "inert env (ls b) \<Longrightarrow>
     fst (Event_emit env d (b, u)) = Return () \<and>
     calls (fst (snd (Event_emit env d (b, u)))) = calls b @ map (\<lambda>h. (fid_of h, d)) (ls b) \<and>
     ls (fst (snd (Event_emit env d (b, u)))) = ls b"
  using Event_emit_inert[of env b d u] by simp

theorem emit_in_subscription_order_witness:
  "inert (quiet_env :: (string, unit) fenv) (ls bus3) \<and>
   calls (fst (snd (Event_emit quiet_env ''p'' (bus3, ())))) = [(1, ''p''), (2, ''p''), (3, ''p'')]"
proof -
  have h: "inert (quiet_env :: (string, unit) fenv) (ls bus3)"
    by (simp add: inert_def quiet_env_def bus3_def Event_on_def Atom_Event_def)
  have l: "calls bus3 = [] \<and> ls bus3 = [Fn 1, Fn 2, Fn 3]"
    by (simp add: bus3_def Event_on_def Atom_Event_def)
  show ?thesis
    using h l emit_in_subscription_order[OF h, of "''p''" "()"] by simp
qed

text \<open>
  Claim C7 says a handler registered with \<open>once\<close> is removed after its first call
  and that the removal takes nothing else. The wrapper's \<open>off\<close> is \<open>ls.pop()\<close>,
  which removes the last element of the array, whatever it is. After
  \<open>once(f1); on(f2)\<close> the first \<open>emit\<close> calls \<open>f1\<close>, removes \<open>f2\<close> before it was
  called and keeps the wrapper; the second \<open>emit\<close> calls \<open>f1\<close> again.
\<close>

theorem once_not_removed_failing_input:
  "ls once_then_on = [OnceWrapper 1, Fn 2] \<and>
   ls (fst (snd (Event_emit quiet_env ''x'' (once_then_on, ())))) = [OnceWrapper 1] \<and>
   calls (fst (snd (Event_emit quiet_env ''y'' (snd (Event_emit quiet_env ''x'' (once_then_on, ()))))))
     = [(1, ''x''), (1, ''y'')]"
  by (simp add: once_then_on_def quiet_env_def bus_eval)

subsection \<open>Modules\<close>

lemmas module_eval = Module_on_def Module_onInit_def Module_onStart_def Module_onStop_def
  Mol_Module_def Lifecycle_on_def Atom_Lifecycle_def Atom_State_def State_write_def
  State_read_def Module_status_def Lifecycle_run_def

lemma Module_init_phase: "Module_init env mu = phase_method env ''init'' ''init'' mu"
  by (simp add: Module_init_def phase_method_def)

lemma Module_start_phase: "Module_start env mu = phase_method env ''start'' ''run'' mu"
  by (simp add: Module_start_def phase_method_def)

lemma Module_stop_phase: "Module_stop env mu = phase_method env ''stop'' ''stop'' mu"
  by (simp add: Module_stop_def phase_method_def)

lemma run_hooks_return:
  "\<forall>f \<in> set fs. \<forall>u. fst (f u) = Return () \<Longrightarrow> fst (run_hooks fs u) = Return ()"
proof (induction fs arbitrary: u)
  case Nil
  then show ?case by simp
next
  case (Cons f fs)
  obtain c u' where r: "f u = (c, u')" by (cases "f u") auto
  with Cons.prems have "c = Return ()" by (metis fst_conv list.set_intros(1))
  with r Cons show ?case by simp
qed

lemma Lifecycle_run_return:
  "hooks_return m \<Longrightarrow> fst (Lifecycle_run ph (lc m) u) = Return ()"
  by (auto simp: hooks_return_def Lifecycle_run_def run_hooks_return split: option.splits)

lemma run_hooks_throw:
  "run_hooks pre u = (Return (), u1) \<Longrightarrow> f u1 = (Throw e, u2) \<Longrightarrow>
   run_hooks (pre @ f # post) u = (Throw e, u2)"
proof (induction pre arbitrary: u)
  case Nil
  then show ?case by simp
next
  case (Cons g pre)
  obtain c u' where r: "g u = (c, u')" by (cases "g u") auto
  with Cons.prems(1) have c: "c = Return ()" by (cases c) auto
  with r Cons show ?case by simp
qed

lemma phase_method_throw:
  "Lifecycle_run ph (lc m) u = (Throw e, u') \<Longrightarrow> phase_method env ph st (m, u) = (Throw e, m, u')"
  by (simp add: phase_method_def)

lemma phase_method_written:
  assumes "fst (Lifecycle_run ph (lc m) u) = Return ()"
  shows "Module_status (fst (snd (phase_method env ph st (m, u)))) = \<lparr>status = st, err = None\<rparr> \<and>
         emitted (evt (fst (snd (phase_method env ph st (m, u))))) = emitted (evt m) @ [ph] \<and>
         lc (fst (snd (phase_method env ph st (m, u)))) = lc m"
proof -
  obtain u' where l: "Lifecycle_run ph (lc m) u = (Return (), u')"
    using assms by (cases "Lifecycle_run ph (lc m) u") auto
  let ?m = "m\<lparr>mstate := snd (State_write \<lparr>status = st, err = None\<rparr> (mstate m))\<rparr>"
  obtain c b' u'' where e: "Event_emit env ph (evt ?m, u') = (c, b', u'')"
    by (cases "Event_emit env ph (evt ?m, u')") auto
  have em: "emitted b' = emitted (evt m) @ [ph]"
    using Event_emit_emitted[of env ph "evt ?m" u'] e by simp
  have r: "phase_method env ph st (m, u) = (c, ?m\<lparr>evt := b'\<rparr>, u'')"
    using l e by (simp add: phase_method_def Let_def)
  show ?thesis
    by (simp add: r em Module_status_def State_read_def State_write_def)
qed

lemma phase_method_returns:
  assumes "fst (Lifecycle_run ph (lc m) u) = Return ()" and "never_throws env"
  shows "fst (phase_method env ph st (m, u)) = Return ()"
proof -
  obtain u' where l: "Lifecycle_run ph (lc m) u = (Return (), u')"
    using assms(1) by (cases "Lifecycle_run ph (lc m) u") auto
  let ?m = "m\<lparr>mstate := snd (State_write \<lparr>status = st, err = None\<rparr> (mstate m))\<rparr>"
  obtain c b' u'' where e: "Event_emit env ph (evt ?m, u') = (c, b', u'')"
    by (cases "Event_emit env ph (evt ?m, u')") auto
  have "c = Return ()"
    using Event_emit_never_throws[OF assms(2), of ph "(evt ?m, u')"] e by simp
  moreover have r: "phase_method env ph st (m, u) = (c, ?m\<lparr>evt := b'\<rparr>, u'')"
    using l e by (simp add: phase_method_def Let_def)
  ultimately show ?thesis by simp
qed

lemma phase_method_calls:
  assumes "fst (Lifecycle_run ph (lc m) u) = Return ()" and "inert env (ls (evt m))"
  shows "ls (evt (fst (snd (phase_method env ph st (m, u))))) = ls (evt m) \<and>
         calls (evt (fst (snd (phase_method env ph st (m, u)))))
           = calls (evt m) @ map (\<lambda>h. (fid_of h, ph)) (ls (evt m))"
proof -
  obtain u' where l: "Lifecycle_run ph (lc m) u = (Return (), u')"
    using assms(1) by (cases "Lifecycle_run ph (lc m) u") auto
  let ?m = "m\<lparr>mstate := snd (State_write \<lparr>status = st, err = None\<rparr> (mstate m))\<rparr>"
  obtain c b' u'' where e: "Event_emit env ph (evt ?m, u') = (c, b', u'')"
    by (cases "Event_emit env ph (evt ?m, u')") auto
  have i: "inert env (ls (evt ?m))" using assms(2) by simp
  have "ls b' = ls (evt m) \<and> calls b' = calls (evt m) @ map (\<lambda>h. (fid_of h, ph)) (ls (evt m))"
    using Event_emit_inert[OF i, of ph u'] e by simp
  moreover have r: "phase_method env ph st (m, u) = (c, ?m\<lparr>evt := b'\<rparr>, u'')"
    using l e by (simp add: phase_method_def Let_def)
  ultimately show ?thesis by simp
qed

text \<open>
  Claim C6 says that for a module whose hooks do not throw, \<open>init()\<close> then \<open>start()\<close>
  takes the status from \<open>idle\<close> to \<open>init\<close> to \<open>run\<close>. Each phase method ends with
  \<open>evt.emit\<close>, which does not catch: on a module without hooks and with one
  subscriber that throws, \<open>init()\<close> rejects, a caller that awaits \<open>init()\<close> and then
  \<open>start()\<close> never reaches \<open>start()\<close>, the status stays \<open>init\<close> and \<open>'start'\<close> is never
  emitted.
\<close>

theorem init_then_start_counterexample:
  "hooks_return watched_module \<and>
   fst (Module_init throwing_env (watched_module, 0)) = Throw (Error ''observer failed'') \<and>
   fst (call_phases throwing_env [Init, Start] (watched_module, 0))
     = Throw (Error ''observer failed'') \<and>
   Module_status (fst (snd (call_phases throwing_env [Init, Start] (watched_module, 0))))
     = \<lparr>status = ''init'', err = None\<rparr> \<and>
   emitted (evt (fst (snd (call_phases throwing_env [Init, Start] (watched_module, 0)))))
     = [''init'']"
  by (simp add: hooks_return_def watched_module_def module_eval Module_init_def Module_start_def
      throwing_env_def bus_eval)

text \<open>
  Claim C6, amended. For a module whose hooks do not throw, whose event subscribers
  do not throw and whose status cell is as \<open>Mol_Module\<close> made it: \<open>status()\<close> reads
  \<open>idle\<close> before \<open>init()\<close>; \<open>init()\<close> resolves and \<open>status()\<close> reads \<open>init\<close>; the
  \<open>start()\<close> that follows resolves and \<open>status()\<close> reads \<open>run\<close>; \<open>err\<close> is null each
  time; \<open>init()\<close> emits \<open>'init'\<close> once and \<open>start()\<close> emits \<open>'start'\<close> once. If moreover
  the subscribers leave the subscriber array alone, \<open>init()\<close> calls each subscriber
  once with \<open>'init'\<close> and \<open>start()\<close> calls each once with \<open>'start'\<close>, in subscription
  order, and no subscriber is called otherwise.
\<close>

theorem init_then_start_status_sequence:
  assumes "hooks_return m"
    and "mstate m = Atom_State \<lparr>status = ''idle'', err = None\<rparr>"
    and "never_throws env"
  shows "Module_status m = \<lparr>status = ''idle'', err = None\<rparr> \<and>
         fst (Module_init env (m, u)) = Return () \<and>
         Module_status (fst (snd (Module_init env (m, u)))) = \<lparr>status = ''init'', err = None\<rparr> \<and>
         emitted (evt (fst (snd (Module_init env (m, u))))) = emitted (evt m) @ [''init''] \<and>
         fst (Module_start env (snd (Module_init env (m, u)))) = Return () \<and>
         Module_status (fst (snd (Module_start env (snd (Module_init env (m, u))))))
           = \<lparr>status = ''run'', err = None\<rparr> \<and>
         emitted (evt (fst (snd (Module_start env (snd (Module_init env (m, u)))))))
           = emitted (evt m) @ [''init'', ''start''] \<and>
         (inert env (ls (evt m)) \<longrightarrow>
            calls (evt (fst (snd (Module_init env (m, u)))))
              = calls (evt m) @ map (\<lambda>h. (fid_of h, ''init'')) (ls (evt m)) \<and>
            calls (evt (fst (snd (Module_start env (snd (Module_init env (m, u)))))))
              = calls (evt m) @ map (\<lambda>h. (fid_of h, ''init'')) (ls (evt m))
                  @ map (\<lambda>h. (fid_of h, ''start'')) (ls (evt m)))"
proof -
  obtain c1 m1 u1 where r1: "Module_init env (m, u) = (c1, m1, u1)"
    by (cases "Module_init env (m, u)") auto
  have l1: "fst (Lifecycle_run ''init'' (lc m) u) = Return ()"
    using assms(1) by (rule Lifecycle_run_return)
  have w1: "Module_status m1 = \<lparr>status = ''init'', err = None\<rparr> \<and>
           emitted (evt m1) = emitted (evt m) @ [''init''] \<and> lc m1 = lc m"
    using phase_method_written[OF l1, where env=env and st="''init''"] r1
    by (simp add: Module_init_phase)
  have k1: "c1 = Return ()"
    using phase_method_returns[OF l1 assms(3), where st="''init''"] r1
    by (simp add: Module_init_phase)
  have h1: "hooks_return m1" using w1 assms(1) by (simp add: hooks_return_def)
  obtain c2 m2 u2 where r2: "Module_start env (m1, u1) = (c2, m2, u2)"
    by (cases "Module_start env (m1, u1)") auto
  have l2: "fst (Lifecycle_run ''start'' (lc m1) u1) = Return ()"
    using h1 by (rule Lifecycle_run_return)
  have w2: "Module_status m2 = \<lparr>status = ''run'', err = None\<rparr> \<and>
           emitted (evt m2) = emitted (evt m1) @ [''start'']"
    using phase_method_written[OF l2, where env=env and st="''run''"] r2
    by (simp add: Module_start_phase)
  have k2: "c2 = Return ()"
    using phase_method_returns[OF l2 assms(3), where st="''run''"] r2
    by (simp add: Module_start_phase)
  have idle: "Module_status m = \<lparr>status = ''idle'', err = None\<rparr>"
    by (simp add: assms(2) Module_status_def State_read_def Atom_State_def)
  have ca: "calls (evt m1) = calls (evt m) @ map (\<lambda>h. (fid_of h, ''init'')) (ls (evt m)) \<and>
            calls (evt m2) = calls (evt m) @ map (\<lambda>h. (fid_of h, ''init'')) (ls (evt m))
                  @ map (\<lambda>h. (fid_of h, ''start'')) (ls (evt m))"
    if i: "inert env (ls (evt m))"
  proof -
    have a1: "ls (evt m1) = ls (evt m) \<and>
              calls (evt m1) = calls (evt m) @ map (\<lambda>h. (fid_of h, ''init'')) (ls (evt m))"
      using phase_method_calls[OF l1 i, where st="''init''"] r1 by (simp add: Module_init_phase)
    then have i1: "inert env (ls (evt m1))" using i by simp
    have a2: "calls (evt m2) = calls (evt m1) @ map (\<lambda>h. (fid_of h, ''start'')) (ls (evt m1))"
      using phase_method_calls[OF l2 i1, where st="''run''"] r2 by (simp add: Module_start_phase)
    show ?thesis using a1 a2 by simp
  qed
  show ?thesis using idle w1 k1 w2 k2 ca by (simp add: r1 r2)
qed

lemma plain_hooks_return: "hooks_return plain_module"
  by (auto simp: hooks_return_def plain_module_def module_eval counting_hook_def split: if_splits)

text \<open>
  The sequence on a module with one counting hook per phase and one subscriber.
\<close>

theorem init_then_start_status_sequence_witness:
  "hooks_return plain_module \<and>
   mstate plain_module = Atom_State \<lparr>status = ''idle'', err = None\<rparr> \<and>
   never_throws (quiet_env :: (string, nat) fenv) \<and>
   inert (quiet_env :: (string, nat) fenv) (ls (evt plain_module)) \<and>
   fst (Module_init quiet_env (plain_module, 0)) = Return () \<and>
   Module_status (fst (snd (Module_init quiet_env (plain_module, 0)))) = \<lparr>status = ''init'', err = None\<rparr> \<and>
   fst (Module_start quiet_env (snd (Module_init quiet_env (plain_module, 0)))) = Return () \<and>
   Module_status (fst (snd (Module_start quiet_env (snd (Module_init quiet_env (plain_module, 0))))))
     = \<lparr>status = ''run'', err = None\<rparr> \<and>
   emitted (evt (fst (snd (Module_start quiet_env (snd (Module_init quiet_env (plain_module, 0)))))))
     = [''init'', ''start''] \<and>
   calls (evt (fst (snd (Module_start quiet_env (snd (Module_init quiet_env (plain_module, 0)))))))
     = [(1, ''init''), (1, ''start'')]"
proof -
  have h: "hooks_return plain_module" by (rule plain_hooks_return)
  have i: "mstate plain_module = Atom_State \<lparr>status = ''idle'', err = None\<rparr>"
    by (simp add: plain_module_def module_eval)
  have n: "never_throws (quiet_env :: (string, nat) fenv)"
    by (rule never_throws_quiet_env)
  have e: "emitted (evt plain_module) = [] \<and> calls (evt plain_module) = [] \<and>
           ls (evt plain_module) = [Fn 1]"
    by (simp add: plain_module_def module_eval Event_on_def Atom_Event_def)
  have j: "inert (quiet_env :: (string, nat) fenv) (ls (evt plain_module))"
    by (simp add: e inert_def quiet_env_def)
  show ?thesis
    using h i n j e init_then_start_status_sequence[OF h i n, of 0] by simp
qed

text \<open>
  Claim C8. If the hooks of a phase registered before \<open>f\<close> return and \<open>f\<close> throws
  \<open>e\<close>, the phase method throws \<open>e\<close> to its caller and leaves the module object as it
  was: the status cell is not written and nothing is emitted. (The hooks before \<open>f\<close>
  have run: the world is the one \<open>f\<close> left.)
\<close>

theorem hook_throw_leaves_module:
  assumes "lc m (phase_name p) = Some (pre @ f # post)"
    and "run_hooks pre u = (Return (), u1)"
    and "f u1 = (Throw e, u2)"
  shows "call_phase env p (m, u) = (Throw e, m, u2)"
proof -
  have "Lifecycle_run (phase_name p) (lc m) u = (Throw e, u2)"
    using assms by (simp add: Lifecycle_run_def run_hooks_throw)
  then have "phase_method env (phase_name p) st (m, u) = (Throw e, m, u2)" for st
    by (rule phase_method_throw)
  then show ?thesis
    by (cases p) (simp_all add: Module_init_phase Module_start_phase Module_stop_phase)
qed

text \<open>
  A module with a failing hook in each phase, called while \<open>idle\<close>.
\<close>

theorem hook_throw_leaves_module_witness:
  "Module_init quiet_env (broken_module, 0) = (Throw (Error ''init failed''), broken_module, 1) \<and>
   Module_start quiet_env (broken_module, 0) = (Throw (Error ''start failed''), broken_module, 0) \<and>
   Module_stop quiet_env (broken_module, 0) = (Throw (Error ''stop failed''), broken_module, 1) \<and>
   Module_status broken_module = \<lparr>status = ''idle'', err = None\<rparr>"
proof -
  have l1: "lc broken_module (phase_name Init) = Some ([counting_hook] @ failing_hook ''init failed'' # [])"
    by (simp add: broken_module_def module_eval)
  have l2: "lc broken_module (phase_name Start) = Some ([] @ failing_hook ''start failed'' # [])"
    by (simp add: broken_module_def module_eval)
  have l3: "lc broken_module (phase_name Stop) = Some ([counting_hook] @ failing_hook ''stop failed'' # [])"
    by (simp add: broken_module_def module_eval)
  have r1: "run_hooks [counting_hook] 0 = (Return (), 1)" by (simp add: counting_hook_def)
  have r2: "run_hooks [] (0::nat) = (Return (), 0)" by simp
  have f1: "failing_hook ''init failed'' 1 = (Throw (Error ''init failed''), 1)"
    by (simp add: failing_hook_def)
  have f2: "failing_hook ''start failed'' 0 = (Throw (Error ''start failed''), 0)"
    by (simp add: failing_hook_def)
  have f3: "failing_hook ''stop failed'' 1 = (Throw (Error ''stop failed''), 1)"
    by (simp add: failing_hook_def)
  have s: "Module_status broken_module = \<lparr>status = ''idle'', err = None\<rparr>"
    by (simp add: broken_module_def module_eval)
  show ?thesis
    using hook_throw_leaves_module[OF l1 r1 f1, of quiet_env]
      hook_throw_leaves_module[OF l2 r2 f2, of quiet_env]
      hook_throw_leaves_module[OF l3 r1 f3, of quiet_env] s
    by simp
qed

lemma call_phase_method:
  "call_phase env p mu = phase_method env (phase_name p) (phase_status p) mu"
  by (cases p) (simp_all add: Module_init_phase Module_start_phase Module_stop_phase)

lemma call_phase_returns:
  assumes "hooks_return m" and "never_throws env"
  shows "\<exists>m1 u1. call_phase env p (m, u) = (Return (), m1, u1) \<and> hooks_return m1 \<and>
           Module_status m1 = \<lparr>status = phase_status p, err = None\<rparr>"
proof -
  have l: "fst (Lifecycle_run (phase_name p) (lc m) u) = Return ()"
    using assms(1) by (rule Lifecycle_run_return)
  obtain c m1 u1 where r: "phase_method env (phase_name p) (phase_status p) (m, u) = (c, m1, u1)"
    by (cases "phase_method env (phase_name p) (phase_status p) (m, u)") auto
  have w: "Module_status m1 = \<lparr>status = phase_status p, err = None\<rparr> \<and> lc m1 = lc m"
    using phase_method_written[OF l, where env=env and st="phase_status p"] r by simp
  have i: "c = Return ()"
    using phase_method_returns[OF l assms(2), where st="phase_status p"] r by simp
  have "hooks_return m1" using w assms(1) by (simp add: hooks_return_def)
  then show ?thesis using r w i by (simp add: call_phase_method)
qed

text \<open>
  Claim C10 says that each phase method succeeds whenever the hooks do not throw. A
  module without hooks and with one subscriber that throws: \<open>stop()\<close> on the fresh
  module rejects with the subscriber's exception, because \<open>evt.emit\<close> does not catch.
\<close>

theorem throwing_subscriber_counterexample:
  "hooks_return watched_module \<and>
   fst (Module_stop throwing_env (watched_module, 0)) = Throw (Error ''observer failed'')"
  by (simp add: hooks_return_def watched_module_def module_eval Module_stop_def throwing_env_def
      bus_eval)

text \<open>
  Claim C10, amended: for a module whose hooks do not throw and whose event
  subscribers do not throw either, every sequence of
  \<open>init()\<close>, \<open>start()\<close>, \<open>stop()\<close> calls, from any current status and in any order,
  succeeds, and the status cell holds the status value of the last phase called.
\<close>

theorem phases_in_any_order:
  assumes "hooks_return m" and "never_throws env"
  shows "fst (call_phases env ps (m, u)) = Return () \<and>
         (ps \<noteq> [] \<longrightarrow> Module_status (fst (snd (call_phases env ps (m, u))))
            = \<lparr>status = phase_status (last ps), err = None\<rparr>)"
  using assms
proof (induction ps arbitrary: m u)
  case Nil
  then show ?case by simp
next
  case (Cons p ps)
  from call_phase_returns[OF Cons.prems, of p u]
  obtain m1 u1 where r: "call_phase env p (m, u) = (Return (), m1, u1)"
    and h: "hooks_return m1"
    and s: "Module_status m1 = \<lparr>status = phase_status p, err = None\<rparr>" by blast
  show ?case
  proof (cases "ps = []")
    case True
    then show ?thesis using r s by simp
  next
    case False
    then show ?thesis using r Cons.IH[OF h Cons.prems(2), of u1] by simp
  qed
qed

text \<open>
  \<open>stop()\<close> on a fresh idle module, and a sequence out of the usual order.
\<close>

theorem phases_in_any_order_witness:
  "hooks_return plain_module \<and> never_throws (quiet_env :: (string, nat) fenv) \<and>
   Module_status plain_module = \<lparr>status = ''idle'', err = None\<rparr> \<and>
   fst (Module_stop quiet_env (plain_module, 0)) = Return () \<and>
   Module_status (fst (snd (Module_stop quiet_env (plain_module, 0)))) = \<lparr>status = ''stop'', err = None\<rparr> \<and>
   fst (call_phases quiet_env [Start, Stop, Stop, Init] (plain_module, 0)) = Return () \<and>
   Module_status (fst (snd (call_phases quiet_env [Start, Stop, Stop, Init] (plain_module, 0))))
     = \<lparr>status = ''init'', err = None\<rparr>"
proof -
  have h: "hooks_return plain_module" by (rule plain_hooks_return)
  have i: "never_throws (quiet_env :: (string, nat) fenv)"
    by (rule never_throws_quiet_env)
  have s: "Module_status plain_module = \<lparr>status = ''idle'', err = None\<rparr>"
    by (simp add: plain_module_def module_eval)
  have one: "call_phases quiet_env [Stop] (plain_module, 0) = Module_stop quiet_env (plain_module, 0)"
    by (cases "Module_stop quiet_env (plain_module, 0 :: nat)" rule: prod.exhaust)
      (auto split: completion.splits)
  have a1: "fst (call_phases quiet_env [Stop] (plain_module, 0)) = Return () \<and>
     Module_status (fst (snd (call_phases quiet_env [Stop] (plain_module, 0))))
       = \<lparr>status = ''stop'', err = None\<rparr>"
    using phases_in_any_order[OF h i, of "[Stop]" 0] by (simp del: call_phases.simps)
  have a2: "fst (call_phases quiet_env [Start, Stop, Stop, Init] (plain_module, 0)) = Return () \<and>
     Module_status (fst (snd (call_phases quiet_env [Start, Stop, Stop, Init] (plain_module, 0))))
       = \<lparr>status = ''init'', err = None\<rparr>"
    using phases_in_any_order[OF h i, of "[Start, Stop, Stop, Init]" 0]
    by (simp del: call_phases.simps)
  show ?thesis
    using h i s a1[unfolded one] a2 by blast
qed

subsection \<open>Store\<close>

lemmas store_eval = Store_set_def Store_on_def Mol_Store_def Store_get_def Atom_State_def
  State_read_def State_write_def

lemma Guard_validate_first_violation:
  "Guard_validate schema x =
     (case first_violation schema x of None \<Rightarrow> VOk x | Some k \<Rightarrow> VFail k)"
  by (induction schema) (auto simp: first_violation_def)

lemma first_violation_None: "first_violation schema x = None \<longleftrightarrow> satisfies schema x"
  by (induction schema) (auto simp: first_violation_def satisfies_def)

lemma Store_set_rejected:
  assumes "validator s = validator (Mol_Store i schema)"
    and "first_violation schema x = Some k"
  shows "Store_set env x (s, u) = (Throw (Error (''Invalid: '' @ k)), s, u)"
proof -
  have "schema \<noteq> []" using assms(2) by (auto simp: first_violation_def)
  then have "validator s = Some (Guard_validate schema)"
    using assms(1) by (simp add: Mol_Store_def)
  then show ?thesis
    using assms(2) by (simp add: Store_set_def Guard_validate_first_violation)
qed

lemma Store_set_accepted:
  assumes "validator s = validator (Mol_Store i schema)"
    and "satisfies schema x"
  shows "Store_set env x (s, u) =
     (let s' = s\<lparr>state := snd (State_write x (state s))\<rparr> in
        case Event_emit env x (changed s', u) of
          (Throw e, b', u') \<Rightarrow> (Throw e, s'\<lparr>changed := b'\<rparr>, u')
        | (Return _, b', u') \<Rightarrow> (Return x, s'\<lparr>changed := b'\<rparr>, u'))"
proof -
  have n: "first_violation schema x = None"
    using assms(2) by (simp add: first_violation_None)
  have "validator s = None \<or> validator s = Some (Guard_validate schema)"
    using assms(1) by (simp add: Mol_Store_def)
  then show ?thesis
    using n by (auto simp: Store_set_def Guard_validate_first_violation)
qed

text \<open>
  Claim C2, amended. For a store built with \<open>schema\<close> (an empty schema means no
  validator): if \<open>x\<close> passes every rule, the cell is replaced, \<open>get()\<close> reads \<open>x\<close> and
  \<open>x\<close> is emitted once; if moreover the subscribers neither throw nor change the
  subscriber array, \<open>set\<close> returns \<open>x\<close> and every subscriber is called once with \<open>x\<close>,
  in subscription order. If \<open>x\<close> fails a rule, \<open>set\<close> throws
  \<^verbatim>\<open>Error(`Invalid: ${k}`)\<close> for the first failing field \<open>k\<close> in the order of the rule
  entries, and store and world are exactly as before: no write, no emission, no call.
\<close>

theorem store_set_atomic:
  assumes "validator s = validator (Mol_Store i schema)"
  shows "(satisfies schema x \<longrightarrow>
            Store_get (fst (snd (Store_set env x (s, u)))) = x \<and>
            emitted (changed (fst (snd (Store_set env x (s, u))))) = emitted (changed s) @ [x] \<and>
            (inert env (ls (changed s)) \<longrightarrow>
               fst (Store_set env x (s, u)) = Return x \<and>
               calls (changed (fst (snd (Store_set env x (s, u)))))
                 = calls (changed s) @ map (\<lambda>h. (fid_of h, x)) (ls (changed s)))) \<and>
         (\<not> satisfies schema x \<longrightarrow>
            (\<exists>k. first_violation schema x = Some k \<and>
                 Store_set env x (s, u) = (Throw (Error (''Invalid: '' @ k)), s, u)))"
proof (cases "satisfies schema x")
  case True
  let ?s = "s\<lparr>state := snd (State_write x (state s))\<rparr>"
  obtain c b' u' where e: "Event_emit env x (changed ?s, u) = (c, b', u')"
    by (cases "Event_emit env x (changed ?s, u)") auto
  have r: "Store_set env x (s, u) = ((case c of Return _ \<Rightarrow> Return x | Throw e \<Rightarrow> Throw e), ?s\<lparr>changed := b'\<rparr>, u')"
    using Store_set_accepted[OF assms True, of env u] e by (cases c) (simp_all add: Let_def)
  have em: "emitted b' = emitted (changed s) @ [x]"
    using Event_emit_emitted[of env x "changed ?s" u] e by simp
  have g: "Store_get (?s\<lparr>changed := b'\<rparr>) = x"
    by (simp add: Store_get_def State_read_def State_write_def)
  have i: "c = Return () \<and> calls b' = calls (changed s) @ map (\<lambda>h. (fid_of h, x)) (ls (changed s))"
    if "inert env (ls (changed s))"
  proof -
    have "inert env (ls (changed ?s))" using that by simp
    from Event_emit_inert[OF this, of x u] e show ?thesis by simp
  qed
  show ?thesis using True r em g i by auto
next
  case False
  then obtain k where k: "first_violation schema x = Some k"
    using first_violation_None[of schema x] by (cases "first_violation schema x") auto
  show ?thesis using False k Store_set_rejected[OF assms k, of env u] by simp
qed

text \<open>
  Claim C2 says that on a valid payload every current subscriber receives one
  emission. \<open>set\<close> emits through the same live walk as any bus: with two subscribers
  of which the first unsubscribes itself when called, \<open>set\<close> of a valid payload
  returns it and the second subscriber is not called.
\<close>

theorem store_set_subscribers_counterexample:
  "satisfies person_schema person1 \<and>
   ls (changed person_store) = [Fn 1, Fn 2] \<and>
   fst (Store_set (unsub_self_env 1) person1 (person_store, ())) = Return person1 \<and>
   calls (changed (fst (snd (Store_set (unsub_self_env 1) person1 (person_store, ())))))
     = [(1, person1)]"
  by (simp add: satisfies_def person_schema_def person1_def person0_def person_store_def store_eval
      unsub_self_env_def bus_eval)

text \<open>
  A valid and an invalid payload on a store with two quiet subscribers.
\<close>

theorem store_set_atomic_witness:
  "satisfies person_schema person1 \<and> inert (quiet_env :: (nat obj, unit) fenv) (ls (changed person_store)) \<and>
   fst (Store_set quiet_env person1 (person_store, ())) = Return person1 \<and>
   Store_get (fst (snd (Store_set quiet_env person1 (person_store, ())))) = person1 \<and>
   calls (changed (fst (snd (Store_set quiet_env person1 (person_store, ())))))
     = [(1, person1), (2, person1)] \<and>
   \<not> satisfies person_schema nobody \<and>
   Store_set quiet_env nobody (person_store, ()) = (Throw (Error ''Invalid: name''), person_store, ())"
proof -
  have v: "validator person_store = validator (Mol_Store person0 person_schema)"
    by (simp add: person_store_def Store_on_def)
  have s1: "satisfies person_schema person1"
    by (simp add: satisfies_def person_schema_def person1_def)
  have s2: "\<not> satisfies person_schema nobody"
    by (simp add: satisfies_def person_schema_def nobody_def)
  have f: "first_violation person_schema nobody = Some ''name''"
    by (simp add: first_violation_def person_schema_def nobody_def)
  have l: "ls (changed person_store) = [Fn 1, Fn 2] \<and> calls (changed person_store) = []"
    by (simp add: person_store_def Store_on_def Mol_Store_def Event_on_def Atom_Event_def)
  have i: "inert (quiet_env :: (nat obj, unit) fenv) (ls (changed person_store))"
    by (simp add: l inert_def quiet_env_def)
  show ?thesis
    using s1 s2 f l i store_set_atomic[OF v, of person1 quiet_env "()"]
      store_set_atomic[OF v, of nobody quiet_env "()"]
    by simp
qed

subsection \<open>Pipeline\<close>

lemmas pipeline_eval = Pipeline_run_def run_loop.simps try_stage_def Pipeline_on_def
  Mol_Pipeline_def

text \<open>
  Claim C9. A pipeline with no stages resolves to its input; bus, call log and
  world are exactly as before, so no progress event is emitted. This holds for
  every input, every subscriber list and every behaviour of the subscribers.
\<close>

theorem empty_pipeline_identity:
  "Pipeline_run env [] x (p, u) = (Return x, p, u)"
  by (simp add: Pipeline_run_def run_loop.simps)

lemma deliveries_Nil: "deliveries hs [] = []"
  by (simp add: deliveries_def)

lemma deliveries_Cons:
  "deliveries hs (ev # evs) = map (\<lambda>h. (fid_of h, ev)) hs @ deliveries hs evs"
  by (simp add: deliveries_def)

lemma deliveries_append: "deliveries hs (xs @ ys) = deliveries hs xs @ deliveries hs ys"
  by (simp add: deliveries_def)

lemma try_stage_quiet:
  assumes "never_throws env"
  shows "\<exists>p' u'. try_stage env stages i cur (p, u) = ((stages ! i) cur, p', u') \<and>
           invoked p' = invoked p @ [i] \<and>
           emitted (pevt p') = emitted (pevt p) @
             \<lparr>stage = i, pstatus = ''run'', perr = None\<rparr> #
             (case (stages ! i) cur of
                Return y \<Rightarrow> [\<lparr>stage = i, pstatus = ''ok'', perr = None\<rparr>]
              | Throw e \<Rightarrow> [])"
proof -
  let ?run = "\<lparr>stage = i, pstatus = ''run'', perr = None\<rparr>"
  let ?ok = "\<lparr>stage = i, pstatus = ''ok'', perr = None\<rparr>"
  obtain c1 b1 u1 where e1: "Event_emit env ?run (pevt p, u) = (c1, b1, u1)"
    by (cases "Event_emit env ?run (pevt p, u)") auto
  have r1: "c1 = Return () \<and> emitted b1 = emitted (pevt p) @ [?run]"
    using Event_emit_never_throws[OF assms, of ?run "(pevt p, u)"]
      Event_emit_emitted[of env ?run "pevt p" u] e1 by simp
  show ?thesis
  proof (cases "(stages ! i) cur")
    case (Throw e)
    then show ?thesis using e1 r1 by (simp add: try_stage_def)
  next
    case (Return y)
    obtain c2 b2 u2 where e2: "Event_emit env ?ok (b1, u1) = (c2, b2, u2)"
      by (cases "Event_emit env ?ok (b1, u1)") auto
    have r2: "c2 = Return () \<and> emitted b2 = emitted b1 @ [?ok]"
      using Event_emit_never_throws[OF assms, of ?ok "(b1, u1)"]
        Event_emit_emitted[of env ?ok b1 u1] e2 by simp
    show ?thesis using Return e1 r1 e2 r2 by (simp add: try_stage_def)
  qed
qed

lemma try_stage_inert:
  assumes "inert env (ls (pevt p))"
  shows "\<exists>p' u'. try_stage env stages i cur (p, u) = ((stages ! i) cur, p', u') \<and>
           ls (pevt p') = ls (pevt p) \<and>
           calls (pevt p') = calls (pevt p) @ deliveries (ls (pevt p))
             (\<lparr>stage = i, pstatus = ''run'', perr = None\<rparr> #
              (case (stages ! i) cur of
                 Return y \<Rightarrow> [\<lparr>stage = i, pstatus = ''ok'', perr = None\<rparr>]
               | Throw e \<Rightarrow> []))"
proof -
  let ?run = "\<lparr>stage = i, pstatus = ''run'', perr = None\<rparr>"
  let ?ok = "\<lparr>stage = i, pstatus = ''ok'', perr = None\<rparr>"
  obtain c1 b1 u1 where e1: "Event_emit env ?run (pevt p, u) = (c1, b1, u1)"
    by (cases "Event_emit env ?run (pevt p, u)") auto
  have r1: "c1 = Return () \<and> ls b1 = ls (pevt p) \<and>
            calls b1 = calls (pevt p) @ map (\<lambda>h. (fid_of h, ?run)) (ls (pevt p))"
    using Event_emit_inert[OF assms, of ?run u] e1 by simp
  show ?thesis
  proof (cases "(stages ! i) cur")
    case (Throw e)
    then show ?thesis
      using e1 r1 by (simp add: try_stage_def deliveries_Cons deliveries_Nil)
  next
    case (Return y)
    obtain c2 b2 u2 where e2: "Event_emit env ?ok (b1, u1) = (c2, b2, u2)"
      by (cases "Event_emit env ?ok (b1, u1)") auto
    have i1: "inert env (ls b1)" using assms r1 by simp
    have r2: "c2 = Return () \<and> ls b2 = ls b1 \<and>
              calls b2 = calls b1 @ map (\<lambda>h. (fid_of h, ?ok)) (ls b1)"
      using Event_emit_inert[OF i1, of ?ok u1] e2 by simp
    show ?thesis
      using Return e1 r1 e2 r2 by (simp add: try_stage_def deliveries_Cons deliveries_Nil)
  qed
qed

lemma run_loop_quiet:
  "never_throws env \<Longrightarrow> i \<le> length stages \<Longrightarrow>
   fst (run_loop env stages i cur pu) = pipe_result (drop i stages) cur \<and>
   emitted (pevt (fst (snd (run_loop env stages i cur pu))))
     = emitted (pevt (fst pu)) @ pipe_events (drop i stages) i cur \<and>
   invoked (fst (snd (run_loop env stages i cur pu)))
     = invoked (fst pu) @ pipe_invoked (drop i stages) i cur"
proof (induction env stages i cur pu rule: run_loop.induct)
  case (1 env stages i cur pu)
  obtain p u where pu: "pu = (p, u)" by (cases pu) auto
  show ?case
  proof (cases "i < length stages")
    case False
    with "1.prems" show ?thesis by (simp add: run_loop.simps)
  next
    case True
    have d: "drop i stages = (stages ! i) # drop (i + 1) stages"
      using True by (simp add: Cons_nth_drop_Suc)
    have ip: "never_throws env" using "1.prems"(1) .
    from try_stage_quiet[OF ip, of stages i cur p u]
    obtain p' u' where t: "try_stage env stages i cur (p, u) = ((stages ! i) cur, p', u')"
      and iv: "invoked p' = invoked p @ [i]"
      and em: "emitted (pevt p') = emitted (pevt p) @
             \<lparr>stage = i, pstatus = ''run'', perr = None\<rparr> #
             (case (stages ! i) cur of
                Return y \<Rightarrow> [\<lparr>stage = i, pstatus = ''ok'', perr = None\<rparr>]
              | Throw e \<Rightarrow> [])" by blast
    show ?thesis
    proof (cases "(stages ! i) cur")
      case (Return y)
      have t': "try_stage env stages i cur pu = (Return y, (p', u'))" using t Return pu by simp
      have le: "i + 1 \<le> length stages" using True by simp
      from "1.IH"[OF True t'[symmetric] refl ip le]
      show ?thesis
        using True t' Return iv em pu
        by (subst (1 2 3) run_loop.simps) (simp add: d)
    next
      case (Throw e)
      have t': "try_stage env stages i cur pu = (Throw e, p', u')" using t Throw pu by simp
      show ?thesis
      proof (cases "message e")
        case (Throw t)
        show ?thesis
          using True t' \<open>(stages ! i) cur = Throw e\<close> Throw iv em pu
          by (subst (1 2 3) run_loop.simps) (simp add: d)
      next
        case (Return m)
        let ?fail = "\<lparr>stage = i, pstatus = ''fail'', perr = Some m\<rparr>"
        obtain c b2 u2 where e2: "Event_emit env ?fail (pevt p', u') = (c, b2, u2)"
          by (cases "Event_emit env ?fail (pevt p', u')") auto
        have r2: "c = Return () \<and> emitted b2 = emitted (pevt p') @ [?fail]"
          using Event_emit_never_throws[OF ip, of ?fail "(pevt p', u')"]
            Event_emit_emitted[of env ?fail "pevt p'" u'] e2 by simp
        show ?thesis
          using True t' \<open>(stages ! i) cur = Throw e\<close> Return iv em pu e2 r2
          by (subst (1 2 3) run_loop.simps) (simp add: d)
      qed
    qed
  qed
qed

lemma run_loop_inert:
  "inert env (ls (pevt (fst pu))) \<Longrightarrow> i \<le> length stages \<Longrightarrow>
   ls (pevt (fst (snd (run_loop env stages i cur pu)))) = ls (pevt (fst pu)) \<and>
   calls (pevt (fst (snd (run_loop env stages i cur pu))))
     = calls (pevt (fst pu)) @ deliveries (ls (pevt (fst pu))) (pipe_events (drop i stages) i cur)"
proof (induction env stages i cur pu rule: run_loop.induct)
  case (1 env stages i cur pu)
  obtain p u where pu: "pu = (p, u)" by (cases pu) auto
  show ?case
  proof (cases "i < length stages")
    case False
    with "1.prems" show ?thesis by (simp add: run_loop.simps deliveries_Nil)
  next
    case True
    have d: "drop i stages = (stages ! i) # drop (i + 1) stages"
      using True by (simp add: Cons_nth_drop_Suc)
    have ip: "inert env (ls (pevt p))" using "1.prems"(1) pu by simp
    from try_stage_inert[OF ip, of stages i cur u]
    obtain p' u' where t: "try_stage env stages i cur (p, u) = ((stages ! i) cur, p', u')"
      and l: "ls (pevt p') = ls (pevt p)"
      and ca: "calls (pevt p') = calls (pevt p) @ deliveries (ls (pevt p))
             (\<lparr>stage = i, pstatus = ''run'', perr = None\<rparr> #
              (case (stages ! i) cur of
                 Return y \<Rightarrow> [\<lparr>stage = i, pstatus = ''ok'', perr = None\<rparr>]
               | Throw e \<Rightarrow> []))" by blast
    have ip': "inert env (ls (pevt p'))" using ip l by simp
    show ?thesis
    proof (cases "(stages ! i) cur")
      case (Return y)
      have t': "try_stage env stages i cur pu = (Return y, (p', u'))" using t Return pu by simp
      have ip'': "inert env (ls (pevt (fst (p', u'))))" using ip' by simp
      have le: "i + 1 \<le> length stages" using True by simp
      from "1.IH"[OF True t'[symmetric] refl ip'' le]
      show ?thesis
        using True t' Return l ca pu
        by (subst (1 2) run_loop.simps) (simp add: d deliveries_Cons deliveries_Nil)
    next
      case (Throw e)
      have t': "try_stage env stages i cur pu = (Throw e, p', u')" using t Throw pu by simp
      show ?thesis
      proof (cases "message e")
        case (Throw t)
        show ?thesis
          using True t' \<open>(stages ! i) cur = Throw e\<close> Throw l ca pu
          by (subst (1 2) run_loop.simps) (simp add: d deliveries_Cons deliveries_Nil)
      next
        case (Return m)
        let ?fail = "\<lparr>stage = i, pstatus = ''fail'', perr = Some m\<rparr>"
        obtain c b2 u2 where e2: "Event_emit env ?fail (pevt p', u') = (c, b2, u2)"
          by (cases "Event_emit env ?fail (pevt p', u')") auto
        have r2: "c = Return () \<and> ls b2 = ls (pevt p') \<and>
                  calls b2 = calls (pevt p') @ map (\<lambda>h. (fid_of h, ?fail)) (ls (pevt p'))"
          using Event_emit_inert[OF ip', of ?fail u'] e2 by simp
        show ?thesis
          using True t' \<open>(stages ! i) cur = Throw e\<close> Return l ca pu e2 r2
          by (subst (1 2) run_loop.simps) (simp add: d deliveries_Cons deliveries_Nil)
      qed
    qed
  qed
qed

text \<open>
  Claim C5, amended: for stages \<open>[s1, s2, s3]\<close> on a pipeline whose subscribers do
  not throw. If the three stages succeed, \<open>run\<close> resolves to \<open>s3(s2(s1(input)))\<close>,
  having called the stages in order. If \<open>s1\<close> succeeds and \<open>s2\<close> fails with a cause
  \<open>e\<close> that is an \<open>Error\<close> object with message \<open>m\<close>, \<open>run\<close> rejects with \<open>e\<close> and gives
  no value, the stages called are 0 and 1 only, and the events emitted are \<open>run\<close> and
  \<open>ok\<close> for stage 0, then \<open>run\<close> and \<open>fail\<close> (with \<open>err = m\<close>) for stage 1: nothing
  for stage 2. If moreover the subscribers leave the subscriber array alone, each
  of them is called with exactly these four events, in this order. (A cause that is
  \<open>null\<close> or \<open>undefined\<close> is left out of the statement.)
\<close>

theorem pipeline_three_stages:
  assumes "never_throws env"
  shows "(s1 x = Return y1 \<and> s2 y1 = Return y2 \<and> s3 y2 = Return y3 \<longrightarrow>
            fst (Pipeline_run env [s1, s2, s3] x (p, u)) = Return y3 \<and>
            invoked (fst (snd (Pipeline_run env [s1, s2, s3] x (p, u)))) = invoked p @ [0, 1, 2]) \<and>
         (s1 x = Return y1 \<and> s2 y1 = Throw e \<and> message e = Return m \<longrightarrow>
            fst (Pipeline_run env [s1, s2, s3] x (p, u)) = Throw e \<and>
            invoked (fst (snd (Pipeline_run env [s1, s2, s3] x (p, u)))) = invoked p @ [0, 1] \<and>
            emitted (pevt (fst (snd (Pipeline_run env [s1, s2, s3] x (p, u))))) =
              emitted (pevt p) @
                [\<lparr>stage = 0, pstatus = ''run'', perr = None\<rparr>,
                 \<lparr>stage = 0, pstatus = ''ok'', perr = None\<rparr>,
                 \<lparr>stage = 1, pstatus = ''run'', perr = None\<rparr>,
                 \<lparr>stage = 1, pstatus = ''fail'', perr = Some m\<rparr>] \<and>
            (inert env (ls (pevt p)) \<longrightarrow>
               calls (pevt (fst (snd (Pipeline_run env [s1, s2, s3] x (p, u))))) =
                 calls (pevt p) @ deliveries (ls (pevt p))
                   [\<lparr>stage = 0, pstatus = ''run'', perr = None\<rparr>,
                    \<lparr>stage = 0, pstatus = ''ok'', perr = None\<rparr>,
                    \<lparr>stage = 1, pstatus = ''run'', perr = None\<rparr>,
                    \<lparr>stage = 1, pstatus = ''fail'', perr = Some m\<rparr>]))"
proof -
  have q: "fst (run_loop env [s1, s2, s3] 0 x (p, u)) = pipe_result [s1, s2, s3] x \<and>
     emitted (pevt (fst (snd (run_loop env [s1, s2, s3] 0 x (p, u)))))
       = emitted (pevt p) @ pipe_events [s1, s2, s3] 0 x \<and>
     invoked (fst (snd (run_loop env [s1, s2, s3] 0 x (p, u))))
       = invoked p @ pipe_invoked [s1, s2, s3] 0 x"
    using run_loop_quiet[OF assms, of 0 "[s1, s2, s3]" x "(p, u)"] by simp
  have c: "calls (pevt (fst (snd (run_loop env [s1, s2, s3] 0 x (p, u)))))
       = calls (pevt p) @ deliveries (ls (pevt p)) (pipe_events [s1, s2, s3] 0 x)"
    if "inert env (ls (pevt p))"
    using run_loop_inert[of env "(p, u)" 0 "[s1, s2, s3]" x] that by simp
  show ?thesis
    unfolding Pipeline_run_def using q c by auto
qed

text \<open>
  Claim C5 says that \<open>run\<close> resolves to \<open>s3(s2(s1(input)))\<close> whenever the stages
  succeed. The \<open>emit\<close> calls sit inside the \<open>try\<close> block: a subscriber that throws on
  the \<open>run\<close> event of stage 0 sends control to \<open>catch\<close>, and \<open>run\<close> rejects with the
  subscriber's exception before any stage has been called.
\<close>

theorem throwing_observer_counterexample:
  "inc 5 = Return 6 \<and> dbl 6 = Return 12 \<and> sub3 12 = Return 9 \<and>
   fst (Pipeline_run throwing_env [inc, dbl, sub3] 5 (watched_pipeline, ()))
     = Throw (Error ''observer failed'') \<and>
   invoked (fst (snd (Pipeline_run throwing_env [inc, dbl, sub3] 5 (watched_pipeline, ())))) = []"
  by (simp add: inc_def dbl_def sub3_def watched_pipeline_def pipeline_eval throwing_env_def bus_eval)

text \<open>
  The repository's test pipeline on input 5, and the same with a failing second
  stage, on a pipeline with one subscriber.
\<close>

theorem pipeline_three_stages_witness:
  "never_throws (quiet_env :: (pevent, unit) fenv) \<and>
   inert (quiet_env :: (pevent, unit) fenv) (ls (pevt watched_pipeline)) \<and>
   fst (Pipeline_run quiet_env [inc, dbl, sub3] 5 (watched_pipeline, ())) = Return 9 \<and>
   fst (Pipeline_run quiet_env [inc, failing_stage ''stage two failed'', sub3] 5 (watched_pipeline, ()))
     = Throw (Error ''stage two failed'') \<and>
   invoked (fst (snd (Pipeline_run quiet_env [inc, failing_stage ''stage two failed'', sub3] 5
     (watched_pipeline, ())))) = [0, 1] \<and>
   emitted (pevt (fst (snd (Pipeline_run quiet_env [inc, failing_stage ''stage two failed'', sub3] 5
     (watched_pipeline, ()))))) =
     [\<lparr>stage = 0, pstatus = ''run'', perr = None\<rparr>,
      \<lparr>stage = 0, pstatus = ''ok'', perr = None\<rparr>,
      \<lparr>stage = 1, pstatus = ''run'', perr = None\<rparr>,
      \<lparr>stage = 1, pstatus = ''fail'', perr = Some ''stage two failed''\<rparr>] \<and>
   calls (pevt (fst (snd (Pipeline_run quiet_env [inc, failing_stage ''stage two failed'', sub3] 5
     (watched_pipeline, ()))))) =
     [(1, \<lparr>stage = 0, pstatus = ''run'', perr = None\<rparr>),
      (1, \<lparr>stage = 0, pstatus = ''ok'', perr = None\<rparr>),
      (1, \<lparr>stage = 1, pstatus = ''run'', perr = None\<rparr>),
      (1, \<lparr>stage = 1, pstatus = ''fail'', perr = Some ''stage two failed''\<rparr>)]"
proof -
  have l: "ls (pevt watched_pipeline) = [Fn 1] \<and> emitted (pevt watched_pipeline) = [] \<and>
           calls (pevt watched_pipeline) = [] \<and> invoked watched_pipeline = []"
    by (simp add: watched_pipeline_def Pipeline_on_def Mol_Pipeline_def Event_on_def Atom_Event_def)
  have i: "never_throws (quiet_env :: (pevent, unit) fenv)"
    by (rule never_throws_quiet_env)
  have j: "inert (quiet_env :: (pevent, unit) fenv) (ls (pevt watched_pipeline))"
    by (simp add: l inert_def quiet_env_def)
  have a: "inc 5 = Return 6 \<and> dbl 6 = Return 12 \<and> sub3 12 = Return 9"
    by (simp add: inc_def dbl_def sub3_def)
  have b: "inc 5 = Return 6 \<and> failing_stage ''stage two failed'' 6 = Throw (Error ''stage two failed'')
           \<and> message (Error ''stage two failed'') = Return ''stage two failed''"
    by (simp add: inc_def failing_stage_def)
  show ?thesis
    using i j l a b
      pipeline_three_stages[OF i, where ?s1.0=inc and x=5 and ?y1.0=6 and ?s2.0=dbl and ?y2.0=12
        and ?s3.0=sub3 and ?y3.0=9 and u="()"]
      pipeline_three_stages[OF i, where ?s1.0=inc and x=5 and ?y1.0=6
        and ?s2.0="failing_stage ''stage two failed''" and ?s3.0=sub3
        and e="Error ''stage two failed''" and m="''stage two failed''" and u="()"
        and p=watched_pipeline]
    by (simp add: deliveries_def)
qed

text \<open>
  A second stage that rejects without a reason, \<^verbatim>\<open>() => Promise.reject()\<close>: the
  \<open>catch\<close> block fails on \<open>e.message\<close>, so \<open>run\<close> rejects with the \<open>TypeError\<close> instead
  of the cause, and no \<open>fail\<close> event is emitted.
\<close>

lemma rejection_without_reason:
  "fst (Pipeline_run quiet_env [inc, rejecting_stage, sub3] 5 (watched_pipeline, ()))
     = Throw (Error ''Cannot read properties of undefined (reading 'message')'') \<and>
   emitted (pevt (fst (snd (Pipeline_run quiet_env [inc, rejecting_stage, sub3] 5
     (watched_pipeline, ()))))) =
     [\<lparr>stage = 0, pstatus = ''run'', perr = None\<rparr>,
      \<lparr>stage = 0, pstatus = ''ok'', perr = None\<rparr>,
      \<lparr>stage = 1, pstatus = ''run'', perr = None\<rparr>]"
  by (simp add: inc_def rejecting_stage_def watched_pipeline_def pipeline_eval quiet_env_def bus_eval)

subsection \<open>Core sweeps\<close>

lemmas core_eval = Core_init_def Core_stop_def Core_of_def Logger_info_def Logger_log_def Let_def
  sound_module_def faulty_module_def fixed_clock_def counting_hook_def failing_hook_def
  Module_init_def Module_stop_def

lemma init_sweep_sweep:
  "init_sweep menv lenv clock ks cu =
     sweep (Module_init menv) ''init'' ''[HKO_HUB] Init: '' lenv clock ks cu"
  by (induction ks arbitrary: cu) (auto split: prod.splits completion.splits)

lemma stop_sweep_sweep:
  "stop_sweep menv lenv clock ks cu =
     sweep (Module_stop menv) ''stop'' ''[HKO_HUB] Stop: '' lenv clock ks cu"
  by (induction ks arbitrary: cu) (auto split: prod.splits completion.splits)

lemma Logger_info_returns:
  assumes "never_throws lenv"
  shows "\<exists>c' u'. Logger_info lenv clock m (c, u) = (Return (), c', u') \<and>
           modules c' = modules c \<and> trace c' = trace c"
proof -
  let ?e = "\<lparr>time = clock u, level = ''INFO'', msg = m\<rparr>"
  obtain r b' u' where e: "Event_emit lenv ?e (levt c, u) = (r, b', u')"
    by (cases "Event_emit lenv ?e (levt c, u)") auto
  have "r = Return ()"
    using Event_emit_never_throws[OF assms, of ?e "(levt c, u)"] e by simp
  then show ?thesis
    using e by (simp add: Logger_info_def Logger_log_def Let_def)
qed

lemma sweep_throw:
  assumes "modules c ! k = (n, m)" and "meth (m, u) = (Throw e, m', u')"
  shows "sweep meth tag label lenv clock (k # ks) (c, u) =
           (Throw e, c\<lparr>modules := (modules c)[k := (n, m')], trace := trace c @ [(n, tag)]\<rparr>, u')"
  using assms by simp

lemma sweep_return:
  assumes "modules c ! k = (n, m)" and "meth (m, u) = (Return (), m', u')"
    and "never_throws lenv"
  shows "\<exists>c' u''. sweep meth tag label lenv clock (k # ks) (c, u) =
             sweep meth tag label lenv clock ks (c', u'') \<and>
           modules c' = (modules c)[k := (n, m')] \<and> trace c' = trace c @ [(n, tag)]"
proof -
  let ?c = "c\<lparr>modules := (modules c)[k := (n, m')], trace := trace c @ [(n, tag)]\<rparr>"
  from Logger_info_returns[OF assms(3), of clock "label @ n" ?c u']
  obtain c' u'' where l: "Logger_info lenv clock (label @ n) (?c, u') = (Return (), c', u'')"
    and p: "modules c' = modules ?c" "trace c' = trace ?c" by blast
  have "sweep meth tag label lenv clock (k # ks) (c, u) =
          sweep meth tag label lenv clock ks (c', u'')"
    using assms(1,2) l by simp
  then show ?thesis using p by auto
qed


lemma sweep_three:
  assumes i: "never_throws lenv"
    and d: "k1 \<noteq> k2" "k1 \<noteq> k3" "k2 \<noteq> k3"
    and b: "k1 < length (modules cs)" "k2 < length (modules cs)" "k3 < length (modules cs)"
    and m: "modules cs ! k1 = (n1, M1)" "modules cs ! k2 = (n2, M2)" "modules cs ! k3 = (n3, M3)"
    and r1: "\<forall>w. fst (meth (M1, w)) = Return ()"
  shows "((\<forall>w. fst (meth (M2, w)) = Throw e) \<longrightarrow>
            fst (sweep meth tag label lenv clock [k1, k2, k3] (cs, u)) = Throw e \<and>
            trace (fst (snd (sweep meth tag label lenv clock [k1, k2, k3] (cs, u))))
              = trace cs @ [(n1, tag), (n2, tag)] \<and>
            modules (fst (snd (sweep meth tag label lenv clock [k1, k2, k3] (cs, u)))) ! k1
              = (n1, fst (snd (meth (M1, u)))) \<and>
            modules (fst (snd (sweep meth tag label lenv clock [k1, k2, k3] (cs, u)))) ! k3
              = (n3, M3)) \<and>
         ((\<forall>w. fst (meth (M2, w)) = Return ()) \<and> (\<forall>w. fst (meth (M3, w)) = Return ()) \<longrightarrow>
            fst (sweep meth tag label lenv clock [k1, k2, k3] (cs, u)) = Return () \<and>
            trace (fst (snd (sweep meth tag label lenv clock [k1, k2, k3] (cs, u))))
              = trace cs @ [(n1, tag), (n2, tag), (n3, tag)])"
proof -
  obtain M1' u1 where c1: "meth (M1, u) = (Return (), M1', u1)"
    using r1 by (cases "meth (M1, u)") (metis fst_conv)
  from sweep_return[where meth=meth and tag=tag and label=label and clock=clock and ks="[k2, k3]", OF m(1) c1 i]
  obtain c1' u1' where s1: "sweep meth tag label lenv clock [k1, k2, k3] (cs, u) =
             sweep meth tag label lenv clock [k2, k3] (c1', u1')"
    and p1: "modules c1' = (modules cs)[k1 := (n1, M1')]" "trace c1' = trace cs @ [(n1, tag)]"
    by blast
  have m2: "modules c1' ! k2 = (n2, M2)" using p1(1) m(2) d by simp
  have A: "fst (sweep meth tag label lenv clock [k1, k2, k3] (cs, u)) = Throw e \<and>
            trace (fst (snd (sweep meth tag label lenv clock [k1, k2, k3] (cs, u))))
              = trace cs @ [(n1, tag), (n2, tag)] \<and>
            modules (fst (snd (sweep meth tag label lenv clock [k1, k2, k3] (cs, u)))) ! k1
              = (n1, fst (snd (meth (M1, u)))) \<and>
            modules (fst (snd (sweep meth tag label lenv clock [k1, k2, k3] (cs, u)))) ! k3
              = (n3, M3)"
    if t: "\<forall>w. fst (meth (M2, w)) = Throw e"
  proof -
    obtain M2' u2 where c2: "meth (M2, u1') = (Throw e, M2', u2)"
      using t by (cases "meth (M2, u1')") (metis fst_conv)
    have "sweep meth tag label lenv clock [k2, k3] (c1', u1') =
            (Throw e, c1'\<lparr>modules := (modules c1')[k2 := (n2, M2')],
                          trace := trace c1' @ [(n2, tag)]\<rparr>, u2)"
      by (rule sweep_throw[where meth=meth, OF m2 c2])
    then show ?thesis using s1 p1 c1 d b m by simp
  qed
  have B: "fst (sweep meth tag label lenv clock [k1, k2, k3] (cs, u)) = Return () \<and>
            trace (fst (snd (sweep meth tag label lenv clock [k1, k2, k3] (cs, u))))
              = trace cs @ [(n1, tag), (n2, tag), (n3, tag)]"
    if r2: "\<forall>w. fst (meth (M2, w)) = Return ()" and r3: "\<forall>w. fst (meth (M3, w)) = Return ()"
  proof -
    obtain M2' u2 where c2: "meth (M2, u1') = (Return (), M2', u2)"
      using r2 by (cases "meth (M2, u1')") (metis fst_conv)
    from sweep_return[where meth=meth and tag=tag and label=label and clock=clock and ks="[k3]", OF m2 c2 i]
    obtain c2' u2' where s2: "sweep meth tag label lenv clock [k2, k3] (c1', u1') =
             sweep meth tag label lenv clock [k3] (c2', u2')"
      and p2: "modules c2' = (modules c1')[k2 := (n2, M2')]" "trace c2' = trace c1' @ [(n2, tag)]"
      by blast
    have m3: "modules c2' ! k3 = (n3, M3)" using p2(1) p1(1) m(3) d by simp
    obtain M3' u3 where c3: "meth (M3, u2') = (Return (), M3', u3)"
      using r3 by (cases "meth (M3, u2')") (metis fst_conv)
    from sweep_return[where meth=meth and tag=tag and label=label and clock=clock and ks="[]", OF m3 c3 i]
    obtain c3' u3' where s3: "sweep meth tag label lenv clock [k3] (c2', u2') =
             sweep meth tag label lenv clock [] (c3', u3')"
      and p3: "trace c3' = trace c2' @ [(n3, tag)]" by blast
    show ?thesis using s1 s2 s3 p1 p2 p3 by simp
  qed
  show ?thesis using A B by blast
qed


text \<open>
  Claim C4 says that when \<open>B.init\<close> throws, \<open>Core.init()\<close> rejects with a
  \<open>StartupAbort\<close> referencing \<open>B\<close>. The sweep has no \<open>try\<close>: with \<open>B\<close>'s init hook
  throwing \<open>Error('init failed')\<close>, \<open>Core.init()\<close> rejects with that very value, and
  the name of the module does not occur in it.
\<close>

theorem core_init_rejection_counterexample:
  "fst (Core_init quiet_env quiet_env fixed_clock (core_ABC, 0)) = Throw (Error ''init failed'') \<and>
   \<not> mentions (Error ''init failed'') ''B''"
  by (simp add: core_ABC_def core_eval module_eval bus_eval quiet_env_def mentions_def)

text \<open>
  Claim C4, amended: for a registry \<open>[A, B, C]\<close> whose \<open>onLog\<close> subscribers do not
  throw, and with \<open>A.init\<close> succeeding. If \<open>B.init\<close>
  throws \<open>e\<close>, \<open>Core.init()\<close> rejects with \<open>e\<close> itself; the methods called are
  \<open>A.init\<close> then \<open>B.init\<close>, \<open>C\<close> is the object it was, and \<open>A\<close> is left as its own
  \<open>init\<close> left it (no \<open>stop\<close>, no rollback). If \<open>B.init\<close> and \<open>C.init\<close> succeed as
  well, \<open>Core.init()\<close> resolves after \<open>A.init\<close>, \<open>B.init\<close>, \<open>C.init\<close> in that order.
\<close>

theorem core_init_fail_fast:
  assumes "modules cs = [(na, A), (nb, B), (nc, C)]"
    and "never_throws lenv"
    and "\<forall>w. fst (Module_init menv (A, w)) = Return ()"
  shows "((\<forall>w. fst (Module_init menv (B, w)) = Throw e) \<longrightarrow>
            fst (Core_init menv lenv clock (cs, u)) = Throw e \<and>
            trace (fst (snd (Core_init menv lenv clock (cs, u))))
              = trace cs @ [(na, ''init''), (nb, ''init'')] \<and>
            modules (fst (snd (Core_init menv lenv clock (cs, u)))) ! 0
              = (na, fst (snd (Module_init menv (A, u)))) \<and>
            modules (fst (snd (Core_init menv lenv clock (cs, u)))) ! 2 = (nc, C)) \<and>
         ((\<forall>w. fst (Module_init menv (B, w)) = Return ()) \<and>
          (\<forall>w. fst (Module_init menv (C, w)) = Return ()) \<longrightarrow>
            fst (Core_init menv lenv clock (cs, u)) = Return () \<and>
            trace (fst (snd (Core_init menv lenv clock (cs, u))))
              = trace cs @ [(na, ''init''), (nb, ''init''), (nc, ''init'')])"
proof -
  have ks: "[0..<length (modules cs)] = [0, 1, 2]"
    using assms(1) by (simp add: upt_rec)
  have m: "modules cs ! 0 = (na, A)" "modules cs ! 1 = (nb, B)" "modules cs ! 2 = (nc, C)"
    using assms(1) by simp_all
  have b: "0 < length (modules cs)" "1 < length (modules cs)" "2 < length (modules cs)"
    using assms(1) by simp_all
  have d: "(0::nat) \<noteq> 1" "(0::nat) \<noteq> 2" "(1::nat) \<noteq> 2" by simp_all
  from sweep_three[where meth="Module_init menv" and tag="''init''"
      and label="''[HKO_HUB] Init: ''" and clock=clock and u=u and e=e,
      OF assms(2) d b m assms(3)]
  show ?thesis
    by (simp only: Core_init_def init_sweep_sweep fst_conv ks)
qed

text \<open>
  A registry whose second module has a failing init hook, and a sound registry.
\<close>

theorem core_init_fail_fast_witness:
  "fst (Core_init quiet_env quiet_env fixed_clock (core_ABC, 0)) = Throw (Error ''init failed'') \<and>
   trace (fst (snd (Core_init quiet_env quiet_env fixed_clock (core_ABC, 0))))
     = [(''A'', ''init''), (''B'', ''init'')] \<and>
   Module_status (snd (modules (fst (snd (Core_init quiet_env quiet_env fixed_clock (core_ABC, 0)))) ! 0))
     = \<lparr>status = ''init'', err = None\<rparr> \<and>
   modules (fst (snd (Core_init quiet_env quiet_env fixed_clock (core_ABC, 0)))) ! 2
     = (''C'', sound_module ''C'') \<and>
   fst (Core_init quiet_env quiet_env fixed_clock (core_sound, 0)) = Return () \<and>
   trace (fst (snd (Core_init quiet_env quiet_env fixed_clock (core_sound, 0))))
     = [(''A'', ''init''), (''B'', ''init''), (''C'', ''init'')]"
proof -
  have m1: "modules core_ABC
      = [(''A'', sound_module ''A''), (''B'', faulty_module ''B''), (''C'', sound_module ''C'')]"
    by (simp add: core_ABC_def Core_of_def)
  have m2: "modules core_sound
      = [(''A'', sound_module ''A''), (''B'', sound_module ''B''), (''C'', sound_module ''C'')]"
    by (simp add: core_sound_def Core_of_def)
  have i1: "never_throws (quiet_env :: (entry, nat) fenv)"
    by (rule never_throws_quiet_env)
  have t: "trace core_ABC = [] \<and> trace core_sound = []"
    by (simp add: core_ABC_def core_sound_def Core_of_def)
  have ok: "\<forall>w. fst (Module_init quiet_env (sound_module n, w)) = Return ()" for n
    by (simp add: core_eval module_eval bus_eval quiet_env_def)
  have bad: "\<forall>w. fst (Module_init quiet_env (faulty_module ''B'', w)) = Throw (Error ''init failed'')"
    by (simp add: core_eval module_eval bus_eval quiet_env_def)
  have st: "Module_status (fst (snd (Module_init quiet_env (sound_module ''A'', 0))))
      = \<lparr>status = ''init'', err = None\<rparr>"
    by (simp add: core_eval module_eval bus_eval quiet_env_def)
  show ?thesis
    using core_init_fail_fast[OF m1 i1 ok, where clock=fixed_clock and u=0 and e="Error ''init failed''"]
      core_init_fail_fast[OF m2 i1 ok, where clock=fixed_clock and u=0]
      ok bad st t
    by simp
qed

text \<open>
  Claim C3 says that when \<open>B.stop\<close> throws, \<open>A.stop\<close> is still called and \<open>stop()\<close>
  ends with one aggregate error. The stop sweep is the same loop without \<open>try\<close> as
  the init sweep, over the reversed registry: with \<open>B\<close>'s stop hook throwing,
  \<open>Core.stop()\<close> rejects with \<open>B\<close>'s exception after \<open>C.stop\<close> and \<open>B.stop\<close>; \<open>A.stop\<close>
  is never called and \<open>A\<close> still reads \<open>idle\<close>.
\<close>

theorem core_stop_best_effort_counterexample:
  "fst (Core_stop quiet_env quiet_env fixed_clock (core_ABC, 0)) = Throw (Error ''stop failed'') \<and>
   trace (fst (snd (Core_stop quiet_env quiet_env fixed_clock (core_ABC, 0))))
     = [(''C'', ''stop''), (''B'', ''stop'')] \<and>
   Module_status (snd (modules (fst (snd (Core_stop quiet_env quiet_env fixed_clock (core_ABC, 0)))) ! 0))
     = \<lparr>status = ''idle'', err = None\<rparr>"
  by (simp add: core_ABC_def core_eval module_eval bus_eval quiet_env_def)

text \<open>
  Claim C3, amended: for a registry \<open>[A, B, C]\<close> whose \<open>onLog\<close> subscribers do not
  throw, and with \<open>C.stop\<close> succeeding. If \<open>B.stop\<close>
  throws \<open>e\<close>, \<open>Core.stop()\<close> rejects with \<open>e\<close> itself, the methods called are
  \<open>C.stop\<close> then \<open>B.stop\<close>, and \<open>A\<close> is the object it was: its \<open>stop\<close> is not called.
  If \<open>B.stop\<close> and \<open>A.stop\<close> succeed as well, \<open>Core.stop()\<close> resolves after \<open>C.stop\<close>,
  \<open>B.stop\<close>, \<open>A.stop\<close> in that order, the reverse of registration.
\<close>

theorem core_stop_fail_fast:
  assumes "modules cs = [(na, A), (nb, B), (nc, C)]"
    and "never_throws lenv"
    and "\<forall>w. fst (Module_stop menv (C, w)) = Return ()"
  shows "((\<forall>w. fst (Module_stop menv (B, w)) = Throw e) \<longrightarrow>
            fst (Core_stop menv lenv clock (cs, u)) = Throw e \<and>
            trace (fst (snd (Core_stop menv lenv clock (cs, u))))
              = trace cs @ [(nc, ''stop''), (nb, ''stop'')] \<and>
            modules (fst (snd (Core_stop menv lenv clock (cs, u)))) ! 0 = (na, A)) \<and>
         ((\<forall>w. fst (Module_stop menv (B, w)) = Return ()) \<and>
          (\<forall>w. fst (Module_stop menv (A, w)) = Return ()) \<longrightarrow>
            fst (Core_stop menv lenv clock (cs, u)) = Return () \<and>
            trace (fst (snd (Core_stop menv lenv clock (cs, u))))
              = trace cs @ [(nc, ''stop''), (nb, ''stop''), (na, ''stop'')])"
proof -
  have ks: "rev [0..<length (modules cs)] = [2, 1, 0]"
    using assms(1) by (simp add: upt_rec)
  have m: "modules cs ! 2 = (nc, C)" "modules cs ! 1 = (nb, B)" "modules cs ! 0 = (na, A)"
    using assms(1) by simp_all
  have b: "2 < length (modules cs)" "1 < length (modules cs)" "0 < length (modules cs)"
    using assms(1) by simp_all
  have d: "(2::nat) \<noteq> 1" "(2::nat) \<noteq> 0" "(1::nat) \<noteq> 0" by simp_all
  from sweep_three[where meth="Module_stop menv" and tag="''stop''"
      and label="''[HKO_HUB] Stop: ''" and clock=clock and u=u and e=e,
      OF assms(2) d b m assms(3)]
  show ?thesis
    by (simp only: Core_stop_def stop_sweep_sweep fst_conv ks) blast
qed

text \<open>
  The same two registries, stopped.
\<close>

theorem core_stop_fail_fast_witness:
  "fst (Core_stop quiet_env quiet_env fixed_clock (core_ABC, 0)) = Throw (Error ''stop failed'') \<and>
   modules (fst (snd (Core_stop quiet_env quiet_env fixed_clock (core_ABC, 0)))) ! 0
     = (''A'', sound_module ''A'') \<and>
   fst (Core_stop quiet_env quiet_env fixed_clock (core_sound, 0)) = Return () \<and>
   trace (fst (snd (Core_stop quiet_env quiet_env fixed_clock (core_sound, 0))))
     = [(''C'', ''stop''), (''B'', ''stop''), (''A'', ''stop'')]"
proof -
  have m1: "modules core_ABC
      = [(''A'', sound_module ''A''), (''B'', faulty_module ''B''), (''C'', sound_module ''C'')]"
    by (simp add: core_ABC_def Core_of_def)
  have m2: "modules core_sound
      = [(''A'', sound_module ''A''), (''B'', sound_module ''B''), (''C'', sound_module ''C'')]"
    by (simp add: core_sound_def Core_of_def)
  have i1: "never_throws (quiet_env :: (entry, nat) fenv)"
    by (rule never_throws_quiet_env)
  have t: "trace core_ABC = [] \<and> trace core_sound = []"
    by (simp add: core_ABC_def core_sound_def Core_of_def)
  have ok: "\<forall>w. fst (Module_stop quiet_env (sound_module n, w)) = Return ()" for n
    by (simp add: core_eval module_eval bus_eval quiet_env_def)
  have bad: "\<forall>w. fst (Module_stop quiet_env (faulty_module ''B'', w)) = Throw (Error ''stop failed'')"
    by (simp add: core_eval module_eval bus_eval quiet_env_def)
  show ?thesis
    using core_stop_fail_fast[OF m1 i1 ok, where clock=fixed_clock and u=0 and e="Error ''stop failed''"]
      core_stop_fail_fast[OF m2 i1 ok, where clock=fixed_clock and u=0]
      ok bad t
    by simp
qed

end
